theory Spec2Isabelle
  imports Main "HOL-Library.Multiset" "HOL-Library.Sublist"
begin

section \<open>Scheduler: data model\<close>

text \<open>
  Projects (\<open>FullProjectInternal\<close>) are objects kept in \<open>Set\<close>s and compared by
  reference, so a project is a value of an arbitrary type \<open>'p\<close> and its \<open>_deps\<close> field is
  read through a function \<open>deps :: 'p \<Rightarrow> 'p list\<close>. A project suite (an element of
  \<open>rootSuite.suites\<close>) is used by the scheduler through \<open>_projectConfig!\<close> and
  \<open>allTests()\<close> only; class \<open>Suite\<close> is imported from \<open>common/test\<close>, so the record
  holds exactly these two readings.
\<close>

record ('p, 't) Suite =
  projectConfig :: "'p"
  allTests :: "'t list"

text \<open>
  \<open>TestGroup\<close> is imported from \<open>runner/testGroups\<close>; the scheduler reads its \<open>tests\<close>
  only. \<open>ProjectWithTestGroups\<close>, the elements of \<open>TaskRunnerState.phases\<close> and the part of
  \<open>TaskRunnerState\<close> that the two scheduling tasks touch follow the type declarations.
  \<open>maxConcurrentTestGroups\<close> stands for \<open>config._maxConcurrentTestGroups\<close>.
\<close>

record 't TestGroup =
  tests :: "'t list"

record ('p, 't) ProjectWithTestGroups =
  project :: "'p"
  projectSuite :: "('p, 't) Suite"
  testGroups :: "'t TestGroup list"

record ('d, 'p, 't) Phase =
  dispatcher :: "'d"
  projects :: "('p, 't) ProjectWithTestGroups list"

record ('d, 'p, 't) TaskRunnerState =
  phases :: "('d, 'p, 't) Phase list"
  maxConcurrentTestGroups :: nat

text \<open>
  What \<open>createRunTestsTask\<close> does to the outside world, in order: it appends a result with
  a given status to a test (\<open>test._appendTestResult().status = 'skipped'\<close>), and it calls
  \<open>dispatcher.run(phaseTestGroups)\<close> and \<open>dispatcher.stop()\<close>.
\<close>

datatype ('d, 't) Event =
    AppendTestResult 't string
  | DispatcherRun 'd "'t TestGroup list"
  | DispatcherStop 'd

text \<open>
  Class \<open>Dispatcher\<close> and \<open>TestCase.ok()\<close> are imported from other modules. Their
  answers are parameters: each may depend in any way on everything done so far (the list of
  events). The calls \<open>dispatcher.run\<close> and \<open>dispatcher.stop\<close> are taken to return.
\<close>

record ('d, 't) Collaborators =
  hasWorkerErrors :: "('d, 't) Event list \<Rightarrow> 'd \<Rightarrow> bool"
  ok :: "('d, 't) Event list \<Rightarrow> 't \<Rightarrow> bool"

section \<open>Scheduler: buildPhases\<close>

text \<open>
  The inner \<open>for (const projectSuite of projectSuites)\<close> loop of \<open>buildPhases\<close>: a suite
  is skipped when its project is already processed, or when \<open>_deps.find\<close> returns a
  dependency that is not processed; otherwise it is pushed to the phase.
\<close>

fun collectPhase :: "('p \<Rightarrow> 'p list) \<Rightarrow> 'p set \<Rightarrow> ('p, 't) Suite list \<Rightarrow> ('p, 't) Suite list" where
  "collectPhase deps processed [] = []"
| "collectPhase deps processed (suite # rest) =
     (if projectConfig suite \<in> processed then collectPhase deps processed rest
      else if find (\<lambda>p. p \<notin> processed) (deps (projectConfig suite)) \<noteq> None
        then collectPhase deps processed rest
      else suite # collectPhase deps processed rest)"

text \<open>\<open>for (const projectSuite of phase) processed.add(projectSuite._projectConfig!)\<close>\<close>

fun addProcessed :: "'p set \<Rightarrow> ('p, 't) Suite list \<Rightarrow> 'p set" where
  "addProcessed processed [] = processed"
| "addProcessed processed (suite # rest) =
     addProcessed (insert (projectConfig suite) processed) rest"

text \<open>
  The outer loop \<open>for (let i = 0; i < projectSuites.length; i++)\<close>: the body does not
  read \<open>i\<close>, so the model counts the remaining iterations down. The function has no
  \<open>throw\<close>: it returns a list of phases on every input.
\<close>

fun buildLoop :: "('p \<Rightarrow> 'p list) \<Rightarrow> ('p, 't) Suite list \<Rightarrow> nat \<Rightarrow> 'p set \<Rightarrow>
    ('p, 't) Suite list list \<Rightarrow> ('p, 't) Suite list list" where
  "buildLoop deps projectSuites 0 processed phasesSoFar = phasesSoFar"
| "buildLoop deps projectSuites (Suc n) processed phasesSoFar =
     (let phase = collectPhase deps processed projectSuites
      in buildLoop deps projectSuites n (addProcessed processed phase)
           (if phase \<noteq> [] then phasesSoFar @ [phase] else phasesSoFar))"

definition buildPhases :: "('p \<Rightarrow> 'p list) \<Rightarrow> ('p, 't) Suite list \<Rightarrow> ('p, 't) Suite list list" where
  "buildPhases deps projectSuites = buildLoop deps projectSuites (length projectSuites) {} []"

section \<open>Scheduler: the answer to a dependency cycle\<close>



section \<open>Scheduler: createTestGroupsTask\<close>

text \<open>
  The loop over \<open>buildPhases(rootSuite!.suites)\<close>. \<open>createTestGroups(projectSuite,
  config.workers)\<close> is imported from \<open>runner/testGroups\<close> and is a parameter (a function of
  the project suite). \<open>new Dispatcher(config, reporter)\<close> creates a fresh object: the
  dispatcher of a phase is identified by the position at which the phase is pushed. The
  \<open>debug\<close> line has no effect on the state. The task's rollback (stopping the dispatchers
  in reverse order) is not part of the model.
\<close>

fun createTestGroupsLoop :: "(('p, 't) Suite \<Rightarrow> 't TestGroup list) \<Rightarrow> ('p, 't) Suite list list \<Rightarrow>
    (nat, 'p, 't) TaskRunnerState \<Rightarrow> (nat, 'p, 't) TaskRunnerState" where
  "createTestGroupsLoop createTestGroups [] context = context"
| "createTestGroupsLoop createTestGroups (phase # rest) context =
     (let projs = map (\<lambda>suite.
            \<lparr>project = projectConfig suite, projectSuite = suite,
             testGroups = createTestGroups suite\<rparr>) phase;
          testGroupsInPhase = foldl (\<lambda>acc proj. acc + length (testGroups proj)) 0 projs
      in createTestGroupsLoop createTestGroups rest
           (context\<lparr>phases := phases context @
                       [\<lparr>dispatcher = length (phases context), projects = projs\<rparr>],
                     maxConcurrentTestGroups :=
                       max (maxConcurrentTestGroups context) testGroupsInPhase\<rparr>))"

definition createTestGroupsTask :: "(('p, 't) Suite \<Rightarrow> 't TestGroup list) \<Rightarrow> ('p \<Rightarrow> 'p list) \<Rightarrow>
    ('p, 't) Suite list \<Rightarrow> (nat, 'p, 't) TaskRunnerState \<Rightarrow> (nat, 'p, 't) TaskRunnerState" where
  "createTestGroupsTask createTestGroups deps rootSuites context =
     createTestGroupsLoop createTestGroups (buildPhases deps rootSuites) context"

section \<open>Scheduler: createRunTestsTask\<close>

text \<open>\<open>project._deps.some(p => !successfulProjects.has(p))\<close>\<close>

definition hasFailedDeps :: "('p \<Rightarrow> 'p list) \<Rightarrow> 'p set \<Rightarrow> 'p \<Rightarrow> bool" where
  "hasFailedDeps deps successfulProjects proj =
     list_ex (\<lambda>p. p \<notin> successfulProjects) (deps proj)"

text \<open>
  \<open>for (const testGroup of testGroups) for (const test of testGroup.tests)
  test._appendTestResult().status = 'skipped'\<close>
\<close>

fun skipTestGroups :: "'t TestGroup list \<Rightarrow> ('d, 't) Event list \<Rightarrow> ('d, 't) Event list" where
  "skipTestGroups [] log = log"
| "skipTestGroups (testGroup # rest) log =
     skipTestGroups rest (log @ map (\<lambda>test. AppendTestResult test ''skipped'') (tests testGroup))"

text \<open>
  The first loop over the projects of a phase: the test groups of a project without failed
  dependencies are pushed to \<open>phaseTestGroups\<close>, those of the others are skipped.
\<close>

fun collectPhaseTestGroups :: "('p \<Rightarrow> 'p list) \<Rightarrow> 'p set \<Rightarrow> ('p, 't) ProjectWithTestGroups list \<Rightarrow>
    't TestGroup list \<times> ('d, 't) Event list \<Rightarrow> 't TestGroup list \<times> ('d, 't) Event list" where
  "collectPhaseTestGroups deps successfulProjects [] acc = acc"
| "collectPhaseTestGroups deps successfulProjects (pr # rest) (phaseTestGroups, log) =
     (if \<not> hasFailedDeps deps successfulProjects (project pr)
      then collectPhaseTestGroups deps successfulProjects rest (phaseTestGroups @ testGroups pr, log)
      else collectPhaseTestGroups deps successfulProjects rest
             (phaseTestGroups, skipTestGroups (testGroups pr) log))"

text \<open>
  The second loop over the projects of a phase. It reads \<open>successfulProjects\<close> while it
  adds to it, as the source does.
\<close>

fun addSuccessful :: "('d, 't) Collaborators \<Rightarrow> ('d, 't) Event list \<Rightarrow> ('p \<Rightarrow> 'p list) \<Rightarrow>
    ('p, 't) ProjectWithTestGroups list \<Rightarrow> 'p set \<Rightarrow> 'p set" where
  "addSuccessful env log deps [] successfulProjects = successfulProjects"
| "addSuccessful env log deps (pr # rest) successfulProjects =
     (if \<not> hasFailedDeps deps successfulProjects (project pr) \<and>
         \<not> list_ex (\<lambda>test. \<not> ok env log test) (allTests (projectSuite pr))
      then addSuccessful env log deps rest (insert (project pr) successfulProjects)
      else addSuccessful env log deps rest successfulProjects)"

text \<open>
  The body of \<open>for (const { dispatcher, projects } of phases)\<close>; the state is the set
  \<open>successfulProjects\<close> and the events so far. There is no \<open>break\<close> in the loop.
\<close>

definition runPhase :: "('d, 't) Collaborators \<Rightarrow> ('p \<Rightarrow> 'p list) \<Rightarrow> 'p set \<times> ('d, 't) Event list \<Rightarrow>
    ('d, 'p, 't) Phase \<Rightarrow> 'p set \<times> ('d, 't) Event list" where
  "runPhase env deps st ph =
     (case st of (successfulProjects, log) \<Rightarrow>
       (case collectPhaseTestGroups deps successfulProjects (projects ph) ([], log) of
          (phaseTestGroups, log1) \<Rightarrow>
            let log2 = (if phaseTestGroups \<noteq> []
                        then log1 @ [DispatcherRun (dispatcher ph) phaseTestGroups,
                                     DispatcherStop (dispatcher ph)]
                        else log1)
            in (if \<not> hasWorkerErrors env log2 (dispatcher ph)
                then addSuccessful env log2 deps (projects ph) successfulProjects
                else successfulProjects, log2)))"

definition createRunTestsTask :: "('d, 't) Collaborators \<Rightarrow> ('p \<Rightarrow> 'p list) \<Rightarrow>
    ('d, 'p, 't) TaskRunnerState \<Rightarrow> 'p set \<times> ('d, 't) Event list" where
  "createRunTestsTask env deps context = foldl (runPhase env deps) ({}, []) (phases context)"

section \<open>Scheduler: notions used in the statements\<close>

text \<open>The dependency edges that leave the projects in \<open>V\<close>, from a project to a dependency.\<close>

definition depRel :: "('p \<Rightarrow> 'p list) \<Rightarrow> 'p set \<Rightarrow> ('p \<times> 'p) set" where
  "depRel deps V = {(p, d). p \<in> V \<and> d \<in> set (deps p)}"

text \<open>The index of the first phase that holds a suite of project \<open>p\<close>.\<close>

fun phaseIndex :: "('p, 't) Suite list list \<Rightarrow> 'p \<Rightarrow> nat option" where
  "phaseIndex [] p = None"
| "phaseIndex (ph # rest) p =
     (if p \<in> projectConfig ` set ph then Some 0 else map_option Suc (phaseIndex rest p))"

text \<open>
  The phases that \<open>createTestGroupsTask\<close> leaves in a context that starts with no phases;
  the task is the only writer of \<open>context.phases\<close>.
\<close>

definition plannedPhases :: "(('p, 't) Suite \<Rightarrow> 't TestGroup list) \<Rightarrow> ('p \<Rightarrow> 'p list) \<Rightarrow>
    ('p, 't) Suite list \<Rightarrow> (nat, 'p, 't) Phase list" where
  "plannedPhases createTestGroups deps rootSuites =
     phases (createTestGroupsTask createTestGroups deps rootSuites
       \<lparr>phases = [], maxConcurrentTestGroups = 0\<rparr>)"

text \<open>
  \<open>createRunTestsTask\<close> run on the first \<open>k\<close> phases only: since the task is one loop
  over the phases, this is the state of its loop (the successful projects and the events
  so far) when it has finished \<open>k\<close> phases.
\<close>

definition runPrefix :: "('d, 't) Collaborators \<Rightarrow> ('p \<Rightarrow> 'p list) \<Rightarrow>
    ('d, 'p, 't) Phase list \<Rightarrow> nat \<Rightarrow> 'p set \<times> ('d, 't) Event list" where
  "runPrefix env deps phs k =
     createRunTestsTask env deps \<lparr>phases = take k phs, maxConcurrentTestGroups = 0\<rparr>"

section \<open>Scheduler: auxiliary notions of the proofs\<close>

definition eligible :: "('p \<Rightarrow> 'p list) \<Rightarrow> 'p set \<Rightarrow> ('p, 't) Suite \<Rightarrow> bool" where
  "eligible deps processed s \<longleftrightarrow>
     projectConfig s \<notin> processed \<and> set (deps (projectConfig s)) \<subseteq> processed"

text \<open>The loop of \<open>buildPhases\<close> written forwards: the phases produced by \<open>n\<close> more passes.\<close>

fun laterPhases :: "('p \<Rightarrow> 'p list) \<Rightarrow> ('p, 't) Suite list \<Rightarrow> nat \<Rightarrow> 'p set \<Rightarrow> ('p, 't) Suite list list" where
  "laterPhases deps ss 0 P = []"
| "laterPhases deps ss (Suc n) P =
     (let ph = filter (eligible deps P) ss
      in (if ph \<noteq> [] then [ph] else []) @ laterPhases deps ss n (P \<union> projectConfig ` set ph))"

definition phaseSets :: "('p, 't) Suite list list \<Rightarrow> 'p set list" where
  "phaseSets L = map (\<lambda>ph. projectConfig ` set ph) L"

definition phaseProjects :: "('d, 'p, 't) Phase \<Rightarrow> 'p set" where
  "phaseProjects ph = project ` set (projects ph)"

text \<open>
  \<open>layered\<close>: every project of a phase is new and has all its dependencies among the
  projects \<open>P\<close> of the earlier phases. \<open>chained\<close>: every project of a phase has a dependency
  in the phase just before it (\<open>D\<close> for the first one).
\<close>

fun layered :: "('p \<Rightarrow> 'p list) \<Rightarrow> 'p set \<Rightarrow> 'p set list \<Rightarrow> bool" where
  "layered deps P [] = True"
| "layered deps P (A # rest) =
     ((\<forall>p \<in> A. p \<notin> P \<and> set (deps p) \<subseteq> P) \<and> layered deps (P \<union> A) rest)"

fun chained :: "('p \<Rightarrow> 'p list) \<Rightarrow> 'p set \<Rightarrow> 'p set list \<Rightarrow> bool" where
  "chained deps D [] = True"
| "chained deps D (A # rest) =
     ((\<forall>p \<in> A. \<exists>d \<in> set (deps p). d \<in> D) \<and> chained deps A rest)"

definition unprocessed :: "('p, 't) Suite list \<Rightarrow> 'p set \<Rightarrow> 'p set" where
  "unprocessed ss P = projectConfig ` set ss - P"

definition skippedEvents :: "('p, 't) ProjectWithTestGroups list \<Rightarrow> ('d, 't) Event list" where
  "skippedEvents prs =
     map (\<lambda>test. AppendTestResult test ''skipped'') (concat (map tests (concat (map testGroups prs))))"

definition phaseLog :: "('p \<Rightarrow> 'p list) \<Rightarrow> 'p set \<Rightarrow> ('d, 'p, 't) Phase \<Rightarrow> ('d, 't) Event list" where
  "phaseLog deps S ph =
     skippedEvents (filter (\<lambda>q. hasFailedDeps deps S (project q)) (projects ph)) @
     (let gs = concat (map testGroups (filter (\<lambda>q. \<not> hasFailedDeps deps S (project q)) (projects ph)))
      in if gs \<noteq> [] then [DispatcherRun (dispatcher ph) gs, DispatcherStop (dispatcher ph)] else [])"

section \<open>Scheduler: concrete configurations\<close>

text \<open>
  Three projects \<open>A = 0\<close>, \<open>B = 1\<close> (depends on \<open>A\<close>) and \<open>C = 2\<close> (depends on
  \<open>A\<close>), one test each, as in the test \<open>should run projects with dependencies\<close>; every
  other project has no dependencies.
\<close>

definition depsABC :: "nat \<Rightarrow> nat list" where
  "depsABC p = (if p = 1 then [0] else if p = 2 then [0] else [])"

definition suitesABC :: "(nat, string) Suite list" where
  "suitesABC =
     [\<lparr>projectConfig = 0, allTests = [''A test'']\<rparr>,
      \<lparr>projectConfig = 1, allTests = [''B test'']\<rparr>,
      \<lparr>projectConfig = 2, allTests = [''C test'']\<rparr>]"


text \<open>One test group per project suite, holding all its tests.\<close>

definition oneGroupPerSuite :: "('p, 't) Suite \<Rightarrow> 't TestGroup list" where
  "oneGroupPerSuite suite = [\<lparr>tests = allTests suite\<rparr>]"

definition entryA :: "(nat, string) ProjectWithTestGroups" where
  "entryA = \<lparr>project = 0, projectSuite = \<lparr>projectConfig = 0, allTests = [''A test'']\<rparr>,
              testGroups = [\<lparr>tests = [''A test'']\<rparr>]\<rparr>"

definition entryB :: "(nat, string) ProjectWithTestGroups" where
  "entryB = \<lparr>project = 1, projectSuite = \<lparr>projectConfig = 1, allTests = [''B test'']\<rparr>,
              testGroups = [\<lparr>tests = [''B test'']\<rparr>]\<rparr>"

definition entryC :: "(nat, string) ProjectWithTestGroups" where
  "entryC = \<lparr>project = 2, projectSuite = \<lparr>projectConfig = 2, allTests = [''C test'']\<rparr>,
              testGroups = [\<lparr>tests = [''C test'']\<rparr>]\<rparr>"

text \<open>No worker breaks and the test of \<open>A\<close> is not ok.\<close>

definition envAFails :: "(nat, string) Collaborators" where
  "envAFails = \<lparr>hasWorkerErrors = (\<lambda>log d. False), ok = (\<lambda>log test. test \<noteq> ''A test'')\<rparr>"

text \<open>The dispatcher of the first phase reports worker errors; every test is ok.\<close>

definition envCrash :: "(nat, string) Collaborators" where
  "envCrash = \<lparr>hasWorkerErrors = (\<lambda>log d. d = 0), ok = (\<lambda>log test. True)\<rparr>"

section \<open>The load-tests task\<close>

text \<open>
  What \<open>createLoadTask\<close> reads and writes: \<open>options.passWithNoTests\<close> (an optional
  boolean), \<open>config.shard\<close> (\<open>null\<close> or a shard) and \<open>context.rootSuite\<close>.
\<close>

record ('r, 'sh) LoadContext =
  passWithNoTests :: "bool option"
  shard :: "'sh option"
  rootSuite :: "'r option"

text \<open>
  The task fails with \<open>new Error(`No tests found`)\<close>, or with whatever \<open>loadAllTests\<close>
  rejected with.
\<close>

datatype 'x LoadFailure = ErrorMessage string | LoadAllTestsRejected 'x

text \<open>
  \<open>loadAllTests\<close> is imported from \<open>loadUtils\<close>: its outcome \<open>loaded\<close> (a rejection or
  the root suite) is a parameter, and so is \<open>allTests()\<close> of the root suite
  (\<open>allTestsOf\<close>). \<open>!x\<close> holds of an optional boolean that is \<open>undefined\<close> or
  \<open>false\<close>, and of \<open>null\<close>. The task returns how it fails, if it does, and the context.
\<close>

definition createLoadTask :: "('r \<Rightarrow> 't list) \<Rightarrow> 'x + 'r \<Rightarrow> ('r, 'sh) LoadContext \<Rightarrow>
    'x LoadFailure option \<times> ('r, 'sh) LoadContext" where
  "createLoadTask allTestsOf loaded context =
     (case loaded of
        Inl x \<Rightarrow> (Some (LoadAllTestsRejected x), context)
      | Inr suite \<Rightarrow>
          (let context' = context\<lparr>rootSuite := Some suite\<rparr>
           in if length (allTestsOf suite) = 0 \<and> passWithNoTests context' \<noteq> Some True \<and>
                 shard context' = None
              then (Some (ErrorMessage ''No tests found''), context')
              else (None, context')))"

text \<open>
  Concrete inputs: a root suite given by the list of its tests, loaded without a
  rejection, and a context with given \<open>passWithNoTests\<close> and shard (\<open>current\<close>,
  \<open>total\<close>) before the task runs.
\<close>

definition testsOfList :: "string list \<Rightarrow> string list" where
  "testsOfList suite = suite"

definition loadedSuite :: "string list \<Rightarrow> string + string list" where
  "loadedSuite suite = Inr suite"

definition loadContext :: "bool option \<Rightarrow> (nat \<times> nat) option \<Rightarrow> (string list, nat \<times> nat) LoadContext" where
  "loadContext p s = \<lparr>passWithNoTests = p, shard = s, rootSuite = None\<rparr>"

section \<open>The test loader: data model\<close>

text \<open>
  A test as the loader reads it: \<open>t.location.file\<close>. A file suite with the fields that
  \<open>loadTestFile\<close> sets or reads: its title and type (the constructor's arguments),
  \<open>_requireFile\<close>, \<open>location.file\<close>, and the tests that \<open>allTests()\<close> returns.
\<close>

record 'a LoadedTest =
  testId :: "'a"
  testFile :: string

record 'a FileSuite =
  suiteTitle :: string
  suiteType :: string
  requireFile :: string
  locationFile :: string
  suiteTests :: "'a LoadedTest list"

text \<open>
  Suites are objects: \<open>heap\<close> holds them by address (the position in the list), and
  \<open>new Suite\<close> takes the next address. \<open>cachedFileSuites\<close> is the module-level map from
  file to suite object, \<open>currentlyLoadingFileSuite\<close> the global that
  \<open>setCurrentlyLoadingFileSuite\<close> sets, and \<open>required\<close> lists the files that
  \<open>requireOrImport\<close> has executed, in order.
\<close>

record 'a LoaderState =
  heap :: "'a FileSuite list"
  cachedFileSuites :: "string \<rightharpoonup> nat"
  currentlyLoadingFileSuite :: "nat option"
  required :: "string list"

text \<open>
  What the loader imports. Executing a file (\<open>requireOrImport\<close>) registers tests in the
  suite that is currently loading and may throw; both may depend on the file and on the
  files executed before. \<open>serializeError\<close> and the functions of \<open>path\<close> are functions.
\<close>

record ('a, 'x, 'e) LoaderImports =
  requireOrImport :: "string list \<Rightarrow> string \<Rightarrow> 'a LoadedTest list \<times> 'x option"
  serializeError :: "'x \<Rightarrow> 'e"
  pathRelative :: "string \<Rightarrow> string \<Rightarrow> string"
  pathBasename :: "string \<Rightarrow> string"
  pathExtname :: "string \<Rightarrow> string"

datatype Environment = loader | worker


section \<open>The test loader: loadTestFile and loadTestFilesInProcess\<close>

text \<open>
  The block after the \<open>try\<close>: when all tests of the suite point to one file, that file
  differs from \<open>suite.location.file\<close> and has another extension, it becomes the location
  of the suite.
\<close>

definition fixLocation :: "('a, 'x, 'e) LoaderImports \<Rightarrow> 'a FileSuite \<Rightarrow> 'a FileSuite" where
  "fixLocation imports suite =
     (case remdups (map testFile (suiteTests suite)) of
        [mappedFile] \<Rightarrow>
          if locationFile suite \<noteq> mappedFile \<and>
             pathExtname imports mappedFile \<noteq> pathExtname imports (locationFile suite)
          then suite\<lparr>locationFile := mappedFile\<rparr>
          else suite
      | _ \<Rightarrow> suite)"

text \<open>
  \<open>TestLoader.loadTestFile(file, environment, loadErrors)\<close>. The result is the exception
  that escapes (\<open>Inl\<close>) or the address of the returned suite (\<open>Inr\<close>), the new state
  and the new \<open>loadErrors\<close>. \<open>a || b\<close> on strings takes \<open>b\<close> when \<open>a\<close> is empty.
\<close>

definition loadTestFile :: "('a, 'x, 'e) LoaderImports \<Rightarrow> string \<Rightarrow> string \<Rightarrow> Environment \<Rightarrow>
    'a LoaderState \<times> 'e list \<Rightarrow> ('x + nat) \<times> 'a LoaderState \<times> 'e list" where
  "loadTestFile imports rootDir file environment input =
     (case input of (st, loadErrors) \<Rightarrow>
       (case cachedFileSuites st file of
          Some cached \<Rightarrow> (Inr cached, st, loadErrors)
        | None \<Rightarrow>
            (let suite = length (heap st);
                 created = \<lparr>suiteTitle = (if pathRelative imports rootDir file \<noteq> []
                                           then pathRelative imports rootDir file
                                           else pathBasename imports file),
                            suiteType = ''file'', requireFile = file, locationFile = file,
                            suiteTests = []\<rparr>;
                 st1 = st\<lparr>heap := heap st @ [created], currentlyLoadingFileSuite := Some suite\<rparr>;
                 executed = requireOrImport imports (required st1) file;
                 st2 = st1\<lparr>heap := (heap st1)[suite := created\<lparr>suiteTests := fst executed\<rparr>],
                           required := required st1 @ [file]\<rparr>
             in (case snd executed of
                   None \<Rightarrow>
                     (let st3 = st2\<lparr>cachedFileSuites := (cachedFileSuites st2)(file \<mapsto> suite),
                                    currentlyLoadingFileSuite := None\<rparr>
                      in (Inr suite,
                          st3\<lparr>heap := (heap st3)[suite := fixLocation imports (heap st3 ! suite)]\<rparr>,
                          loadErrors))
                 | Some e \<Rightarrow>
                     (let st3 = st2\<lparr>currentlyLoadingFileSuite := None\<rparr>
                      in if environment = worker then (Inl e, st3, loadErrors)
                         else (Inr suite,
                               st3\<lparr>heap := (heap st3)[suite := fixLocation imports (heap st3 ! suite)]\<rparr>,
                               loadErrors @ [serializeError imports e]))))))"



section \<open>The test loader: notions used in the statements\<close>

text \<open>
  The exception with which executing \<open>file\<close> would end in state \<open>st\<close>, if the file is
  executed at all (it is not when it is cached) and throws.
\<close>

definition importThrows :: "('a, 'x, 'e) LoaderImports \<Rightarrow> 'a LoaderState \<Rightarrow> string \<Rightarrow> 'x option" where
  "importThrows imports st file =
     (case cachedFileSuites st file of
        Some cached \<Rightarrow> None
      | None \<Rightarrow> snd (requireOrImport imports (required st) file))"


text \<open>The loader's state when nothing has been loaded, and a second call after a first.\<close>

definition emptyLoader :: "'a LoaderState" where
  "emptyLoader = \<lparr>heap = [], cachedFileSuites = Map.empty, currentlyLoadingFileSuite = None,
                   required = []\<rparr>"

definition afterLoad :: "('a, 'x, 'e) LoaderImports \<Rightarrow> string \<Rightarrow> string \<Rightarrow> Environment \<Rightarrow>
    'a LoaderState \<times> 'e list \<Rightarrow> 'a LoaderState \<times> 'e list" where
  "afterLoad imports rootDir file environment input =
     snd (loadTestFile imports rootDir file environment input)"

section \<open>The test loader: concrete files\<close>

text \<open>
  Plain \<open>path\<close> functions for the examples, and a file system in which executing
  \<open>bad.spec.ts\<close> throws and every other file registers one test.
\<close>

definition importsBadFile :: "(nat, string, string) LoaderImports" where
  "importsBadFile =
     \<lparr>requireOrImport = (\<lambda>before file.
          if file = ''bad.spec.ts'' then ([], Some ''SyntaxError'')
          else ([\<lparr>testId = length before, testFile = file\<rparr>], None)),
      serializeError = (\<lambda>e. e),
      pathRelative = (\<lambda>rootDir file. file),
      pathBasename = (\<lambda>file. file),
      pathExtname = (\<lambda>file. ''.ts'')\<rparr>"


section \<open>The test loader: auxiliary notions of the proofs\<close>

text \<open>The suite object that \<open>loadTestFile\<close> creates for a file that is not cached, after the file ran.\<close>

definition rawSuite :: "('a, 'x, 'e) LoaderImports \<Rightarrow> string \<Rightarrow> string \<Rightarrow> 'a LoaderState \<Rightarrow> 'a FileSuite" where
  "rawSuite imps rootDir file st =
     \<lparr>suiteTitle = (if pathRelative imps rootDir file \<noteq> []
                     then pathRelative imps rootDir file else pathBasename imps file),
      suiteType = ''file'', requireFile = file, locationFile = file,
      suiteTests = fst (requireOrImport imps (required st) file)\<rparr>"

section \<open>Reporter multiplexer: data model\<close>

text \<open>
  \<open>StdIOChunk\<close> as declared. Tests, results and steps are references; one type \<open>'t\<close>
  stands for all three. \<open>chunk: string | Buffer\<close> is a string here.
\<close>

datatype StdIOType = stdout | stderr

record 't StdIOChunk =
  ioType :: StdIOType
  ioChunk :: string
  ioTest :: "'t option"
  ioResult :: "'t option"

text \<open>
  The suite passed to \<open>onBegin\<close>: the root suite of the run, or the empty root suite
  \<open>new Suite('', 'root')\<close> that \<open>onExit\<close> creates.
\<close>

datatype 's SuiteArg = GivenSuite 's | EmptyRootSuite

text \<open>
  A call of a method of a registered reporter with its arguments. The \<open>config\<close> argument of
  \<open>onBegin\<close> is always the one configuration object and is left out; \<open>FullResult\<close> is
  represented by its status string. A reporter that does not define a hook (the \<open>?.\<close>
  calls) behaves as one whose hook does nothing.
\<close>

datatype ('s, 't, 'e) ReporterCall =
    OnBegin "'s SuiteArg"
  | OnTestBegin 't 't
  | OnStdOut string "'t option" "'t option"
  | OnStdErr string "'t option" "'t option"
  | OnTestEnd 't 't
  | OnEnd string
  | OnExit
  | OnError 'e
  | OnStepBegin 't 't 't
  | OnStepEnd 't 't 't

text \<open>
  Exceptions: the one a reporter's callback throws (or the rejection of the promise it
  returns), and the \<open>TypeError\<close> of \<open>for (... of null)\<close>.
\<close>

datatype ('r, 'c) Exn = ReporterException 'r 'c | TypeError

text \<open>
  What the multiplexer does to the outside world, in order: it invokes a reporter's
  callback (the flag tells whether that invocation threw), and it prints
  \<open>console.error('Error in reporter', e)\<close>.
\<close>

datatype ('r, 'c) Effect = Invoke 'r 'c bool | ConsoleError "('r, 'c) Exn"

text \<open>
  The fields of class \<open>Multiplexer\<close> (\<open>null\<close> is \<open>None\<close>), and the effects so far. The
  constructor leaves both buffers empty and not \<open>null\<close>.
\<close>

record ('r, 's, 't, 'e) Multiplexer =
  reporters :: "'r list"
  deferredErrors :: "'e list option"
  deferredStdIO :: "'t StdIOChunk list option"
  trace :: "('r, ('s, 't, 'e) ReporterCall) Effect list"

definition newMultiplexer :: "'r list \<Rightarrow> ('r, 's, 't, 'e) Multiplexer" where
  "newMultiplexer rs = \<lparr>reporters = rs, deferredErrors = Some [], deferredStdIO = Some [], trace = []\<rparr>"

section \<open>Reporter multiplexer: methods\<close>

text \<open>
  The registered reporters are a parameter: \<open>throws tr r c\<close> tells whether the callback
  of reporter \<open>r\<close> throws when it is invoked with \<open>c\<close> after the effects \<open>tr\<close>. A method
  returns the exception that escapes it, if any, and the new state.
\<close>

definition invoke :: "(('r, ('s, 't, 'e) ReporterCall) Effect list \<Rightarrow> 'r \<Rightarrow> ('s, 't, 'e) ReporterCall \<Rightarrow> bool) \<Rightarrow>
    'r \<Rightarrow> ('s, 't, 'e) ReporterCall \<Rightarrow> ('r, 's, 't, 'e) Multiplexer \<Rightarrow>
    ('r, ('s, 't, 'e) ReporterCall) Exn option \<times> ('r, 's, 't, 'e) Multiplexer" where
  "invoke throws r c st =
     (if throws (trace st) r c
      then (Some (ReporterException r c), st\<lparr>trace := trace st @ [Invoke r c True]\<rparr>)
      else (None, st\<lparr>trace := trace st @ [Invoke r c False]\<rparr>))"

text \<open>
  \<open>function wrap(callback)\<close>: \<open>try { callback() } catch (e) { console.error('Error in
  reporter', e) }\<close>. The \<open>.catch(e => console.error('Error in reporter', e))\<close> of
  \<open>onExit\<close> does the same to a promise.
\<close>

definition wrap :: "(('r, 's, 't, 'e) Multiplexer \<Rightarrow> ('r, ('s, 't, 'e) ReporterCall) Exn option \<times> ('r, 's, 't, 'e) Multiplexer) \<Rightarrow>
    ('r, 's, 't, 'e) Multiplexer \<Rightarrow> ('r, ('s, 't, 'e) ReporterCall) Exn option \<times> ('r, 's, 't, 'e) Multiplexer" where
  "wrap callback st =
     (case callback st of
        (Some e, st') \<Rightarrow> (None, st'\<lparr>trace := trace st' @ [ConsoleError e]\<rparr>)
      | (None, st') \<Rightarrow> (None, st'))"

text \<open>A \<open>for (const x of xs)\<close> loop: an exception that escapes the body ends the loop.\<close>

fun forEach :: "'a list \<Rightarrow> ('a \<Rightarrow> 'st \<Rightarrow> 'x option \<times> 'st) \<Rightarrow> 'st \<Rightarrow> 'x option \<times> 'st" where
  "forEach [] body st = (None, st)"
| "forEach (x # xs) body st =
     (case body x st of
        (Some e, st') \<Rightarrow> (Some e, st')
      | (None, st') \<Rightarrow> forEach xs body st')"

definition onTestBegin where
  "onTestBegin throws t r st =
     forEach (reporters st) (\<lambda>reporter. wrap (invoke throws reporter (OnTestBegin t r))) st"

definition onStdOut where
  "onStdOut throws chunk t r st =
     (case deferredStdIO st of
        Some buffered \<Rightarrow>
          (None, st\<lparr>deferredStdIO :=
             Some (buffered @ [\<lparr>ioType = stdout, ioChunk = chunk, ioTest = t, ioResult = r\<rparr>])\<rparr>)
      | None \<Rightarrow>
          forEach (reporters st) (\<lambda>reporter. wrap (invoke throws reporter (OnStdOut chunk t r))) st)"

definition onStdErr where
  "onStdErr throws chunk t r st =
     (case deferredStdIO st of
        Some buffered \<Rightarrow>
          (None, st\<lparr>deferredStdIO :=
             Some (buffered @ [\<lparr>ioType = stderr, ioChunk = chunk, ioTest = t, ioResult = r\<rparr>])\<rparr>)
      | None \<Rightarrow>
          forEach (reporters st) (\<lambda>reporter. wrap (invoke throws reporter (OnStdErr chunk t r))) st)"

definition onTestEnd where
  "onTestEnd throws t r st =
     forEach (reporters st) (\<lambda>reporter. wrap (invoke throws reporter (OnTestEnd t r))) st"

text \<open>\<open>async onEnd() { }\<close>\<close>

definition onEnd :: "('r, 's, 't, 'e) Multiplexer \<Rightarrow>
    ('r, ('s, 't, 'e) ReporterCall) Exn option \<times> ('r, 's, 't, 'e) Multiplexer" where
  "onEnd st = (None, st)"

definition onError where
  "onError throws error st =
     (case deferredErrors st of
        Some buffered \<Rightarrow> (None, st\<lparr>deferredErrors := Some (buffered @ [error])\<rparr>)
      | None \<Rightarrow>
          forEach (reporters st) (\<lambda>reporter. wrap (invoke throws reporter (OnError error))) st)"

definition onStepBegin where
  "onStepBegin throws t r step st =
     forEach (reporters st) (\<lambda>reporter. wrap (invoke throws reporter (OnStepBegin t r step))) st"

text \<open>\<open>onStepEnd\<close> calls the reporters without \<open>wrap\<close>.\<close>

definition onStepEnd where
  "onStepEnd throws t r step st =
     forEach (reporters st) (\<lambda>reporter. invoke throws reporter (OnStepEnd t r step)) st"

text \<open>
  \<open>onBegin\<close>: the reporters are called without \<open>wrap\<close>; then \<open>_deferredErrors\<close> is read,
  set to \<open>null\<close> and iterated (a \<open>TypeError\<close> when it was \<open>null\<close> already), and the same
  for \<open>_deferredStdIO\<close>.
\<close>

definition onBegin where
  "onBegin throws suite st =
     (case forEach (reporters st) (\<lambda>reporter. invoke throws reporter (OnBegin suite)) st of
        (Some e, st1) \<Rightarrow> (Some e, st1)
      | (None, st1) \<Rightarrow>
          (case deferredErrors st1 of
             None \<Rightarrow> (Some TypeError, st1\<lparr>deferredErrors := None\<rparr>)
           | Some errors \<Rightarrow>
               (case forEach errors (\<lambda>error. onError throws error) (st1\<lparr>deferredErrors := None\<rparr>) of
                  (Some e, st2) \<Rightarrow> (Some e, st2)
                | (None, st2) \<Rightarrow>
                    (case deferredStdIO st2 of
                       None \<Rightarrow> (Some TypeError, st2\<lparr>deferredStdIO := None\<rparr>)
                     | Some stdios \<Rightarrow>
                         forEach stdios
                           (\<lambda>stdio. if ioType stdio = stdout
                              then onStdOut throws (ioChunk stdio) (ioTest stdio) (ioResult stdio)
                              else onStdErr throws (ioChunk stdio) (ioTest stdio) (ioResult stdio))
                           (st2\<lparr>deferredStdIO := None\<rparr>)))))"

text \<open>
  \<open>onExit\<close>: when \<open>_deferredErrors\<close> is not \<open>null\<close>, \<open>onBegin\<close> was not reported and is
  emitted with an empty root suite; then every reporter gets \<open>onEnd(result)\<close>, then every
  reporter gets \<open>onExit()\<close>, each call with its exception caught and printed.
\<close>

definition onExit where
  "onExit throws result st =
     (case (if deferredErrors st \<noteq> None then onBegin throws EmptyRootSuite st else (None, st)) of
        (Some e, st1) \<Rightarrow> (Some e, st1)
      | (None, st1) \<Rightarrow>
          (case forEach (reporters st1) (\<lambda>reporter. wrap (invoke throws reporter (OnEnd result))) st1 of
             (Some e, st2) \<Rightarrow> (Some e, st2)
           | (None, st2) \<Rightarrow>
               forEach (reporters st2) (\<lambda>reporter. wrap (invoke throws reporter OnExit)) st2))"

section \<open>Reporter multiplexer: the report-begin task\<close>

text \<open>
  The task \<open>report begin\<close> of \<open>createTaskRunner\<close> calls \<open>reporter.onBegin\<close> on the
  multiplexer with the root suite; the rollback it returns calls \<open>reporter.onEnd()\<close>.
\<close>

definition reportBeginTask where
  "reportBeginTask throws root st = onBegin throws (GivenSuite root) st"

definition reportBeginRollback :: "('r, 's, 't, 'e) Multiplexer \<Rightarrow>
    ('r, ('s, 't, 'e) ReporterCall) Exn option \<times> ('r, 's, 't, 'e) Multiplexer" where
  "reportBeginRollback st = onEnd st"

section \<open>Reporter multiplexer: notions used in the statements\<close>

text \<open>The calls that reporter \<open>r\<close> has received, in order.\<close>

fun deliveredTo :: "'r \<Rightarrow> ('r, 'c) Effect list \<Rightarrow> 'c list" where
  "deliveredTo r [] = []"
| "deliveredTo r (Invoke r' c b # evs) = (if r' = r then c # deliveredTo r evs else deliveredTo r evs)"
| "deliveredTo r (ConsoleError e # evs) = deliveredTo r evs"

text \<open>
  The effects of delivering \<open>c\<close> to each of the reporters \<open>rs\<close> in turn, where a call
  that throws is followed by the print of its exception and then by the next reporter.
\<close>

fun wrappedDeliveries :: "'c \<Rightarrow> 'r list \<Rightarrow> ('r, 'c) Effect list \<Rightarrow> bool" where
  "wrappedDeliveries c [] evs = (evs = [])"
| "wrappedDeliveries c (r # rs) (Invoke r' c' False # evs) =
     (r' = r \<and> c' = c \<and> wrappedDeliveries c rs evs)"
| "wrappedDeliveries c (r # rs) (Invoke r' c' True # ConsoleError e # evs) =
     (r' = r \<and> c' = c \<and> e = ReporterException r c \<and> wrappedDeliveries c rs evs)"
| "wrappedDeliveries c (r # rs) evs = False"

text \<open>The calls made on the multiplexer during a run.\<close>

datatype ('s, 't, 'e) MultiplexerCall =
    ReportBegin 's
  | ReportBeginRollback
  | Exit string
  | TestBegin 't 't
  | StdOut string "'t option" "'t option"
  | StdErr string "'t option" "'t option"
  | TestEnd 't 't
  | Error 'e
  | StepBegin 't 't 't
  | StepEnd 't 't 't

fun applyCall where
  "applyCall throws (ReportBegin s) st = reportBeginTask throws s st"
| "applyCall throws ReportBeginRollback st = reportBeginRollback st"
| "applyCall throws (Exit result) st = onExit throws result st"
| "applyCall throws (TestBegin t r) st = onTestBegin throws t r st"
| "applyCall throws (StdOut chunk t r) st = onStdOut throws chunk t r st"
| "applyCall throws (StdErr chunk t r) st = onStdErr throws chunk t r st"
| "applyCall throws (TestEnd t r) st = onTestEnd throws t r st"
| "applyCall throws (Error e) st = onError throws e st"
| "applyCall throws (StepBegin t r step) st = onStepBegin throws t r step st"
| "applyCall throws (StepEnd t r step) st = onStepEnd throws t r step st"

text \<open>
  A sequence of calls, each made whether or not an earlier one let an exception escape.
\<close>

definition applyCalls where
  "applyCalls throws calls st = foldl (\<lambda>st c. snd (applyCall throws c st)) st calls"

fun isNotification :: "('s, 't, 'e) MultiplexerCall \<Rightarrow> bool" where
  "isNotification (ReportBegin s) = False"
| "isNotification ReportBeginRollback = False"
| "isNotification (Exit result) = False"
| "isNotification c = True"

fun errorsIn :: "('s, 't, 'e) MultiplexerCall list \<Rightarrow> 'e list" where
  "errorsIn [] = []"
| "errorsIn (Error e # cs) = e # errorsIn cs"
| "errorsIn (c # cs) = errorsIn cs"

fun isLifecycle :: "('s, 't, 'e) ReporterCall \<Rightarrow> bool" where
  "isLifecycle (OnBegin s) = True"
| "isLifecycle (OnError e) = True"
| "isLifecycle (OnEnd result) = True"
| "isLifecycle c = False"

text \<open>
  Modelled from the spec: class \<open>TaskRunner\<close> and the caller that ends a run are imported
  from other modules. A run drives the multiplexer as the pipeline of the specification
  does: steps run in order and a step that ran is rolled back once, so the task
  \<open>report begin\<close>, if it is reached, is followed later by its rollback; notifications
  may arrive at any time; and the run ends with \<open>onExit\<close>.
\<close>

definition pipelineRun where
  "pipelineRun pre begun root mid post result =
     pre @ (if begun then ReportBegin root # mid @ [ReportBeginRollback] else []) @
     post @ [Exit result]"

text \<open>
  The calls \<open>onBegin\<close>, \<open>onError\<close> and \<open>onEnd\<close> that reporter \<open>r\<close> has received, in order.
\<close>

definition lifecycleTo :: "'r \<Rightarrow> ('r, ('s, 't, 'e) ReporterCall) Effect list \<Rightarrow> ('s, 't, 'e) ReporterCall list" where
  "lifecycleTo r tr = filter isLifecycle (deliveredTo r tr)"

text \<open>
  The outcome \<open>res\<close> of a method called in state \<open>st\<close>: no exception escapes, the state changes
  by new effects only, these deliver \<open>c\<close> to every registered reporter in turn (a call that
  throws is followed by the print of its exception), and every reporter has received \<open>c\<close>
  as many times as it is registered.
\<close>

definition deliversToAll :: "('r, 's, 't, 'e) Multiplexer \<Rightarrow> ('s, 't, 'e) ReporterCall \<Rightarrow>
    ('r, ('s, 't, 'e) ReporterCall) Exn option \<times> ('r, 's, 't, 'e) Multiplexer \<Rightarrow> bool" where
  "deliversToAll st c res =
     (\<exists>evs. res = (None, st\<lparr>trace := trace st @ evs\<rparr>) \<and>
            wrappedDeliveries c (reporters st) evs \<and>
            (\<forall>r. deliveredTo r evs = replicate (count_list (reporters st) r) c))"

section \<open>Reporter multiplexer: auxiliary notions of the proofs\<close>

text \<open>
  \<open>onBegin\<close> has not been reported: both buffers are in place, \<open>es\<close> are the buffered errors.
\<close>

definition buffering :: "'r list \<Rightarrow> ('r, 's, 't, 'e) Multiplexer \<Rightarrow> 'e list \<Rightarrow> bool" where
  "buffering rs st es \<longleftrightarrow> reporters st = rs \<and> deferredErrors st = Some es \<and> deferredStdIO st \<noteq> None"

text \<open>
  \<open>onBegin\<close> has been reported: both buffers are \<open>null\<close>.
\<close>

definition live :: "'r list \<Rightarrow> ('r, 's, 't, 'e) Multiplexer \<Rightarrow> bool" where
  "live rs st \<longleftrightarrow> reporters st = rs \<and> deferredErrors st = None \<and> deferredStdIO st = None"

section \<open>Reporter multiplexer: concrete reporters\<close>

text \<open>
  A multiplexer after \<open>onBegin\<close>, with no effects so far.
\<close>

definition liveMultiplexer :: "'r list \<Rightarrow> ('r, 's, 't, 'e) Multiplexer" where
  "liveMultiplexer rs = \<lparr>reporters = rs, deferredErrors = None, deferredStdIO = None, trace = []\<rparr>"

text \<open>
  No reporter ever throws.
\<close>

definition neverThrows :: "(nat, (nat, nat, string) ReporterCall) Effect list \<Rightarrow> nat \<Rightarrow>
    (nat, nat, string) ReporterCall \<Rightarrow> bool" where
  "neverThrows tr r c = False"

text \<open>
  Reporter \<open>1\<close> throws in every callback.
\<close>

definition throwsSecond :: "(nat, (nat, nat, string) ReporterCall) Effect list \<Rightarrow> nat \<Rightarrow>
    (nat, nat, string) ReporterCall \<Rightarrow> bool" where
  "throwsSecond tr r c = (r = 1)"

text \<open>
  Reporter \<open>1\<close> throws in \<open>onError\<close>.
\<close>

definition throwsOnError :: "(nat, (nat, nat, string) ReporterCall) Effect list \<Rightarrow> nat \<Rightarrow>
    (nat, nat, string) ReporterCall \<Rightarrow> bool" where
  "throwsOnError tr r c = (case c of OnError e \<Rightarrow> r = 1 | _ \<Rightarrow> False)"

text \<open>
  Every reporter throws in \<open>onBegin\<close>.
\<close>

definition throwsOnBegin :: "(nat, (nat, nat, string) ReporterCall) Effect list \<Rightarrow> nat \<Rightarrow>
    (nat, nat, string) ReporterCall \<Rightarrow> bool" where
  "throwsOnBegin tr r c = (case c of OnBegin s \<Rightarrow> True | _ \<Rightarrow> False)"

text \<open>
  A load error and some output, reported before \<open>onBegin\<close>.
\<close>

definition earlyCalls :: "(nat, nat, string) MultiplexerCall list" where
  "earlyCalls = [Error ''load failed'', StdOut ''hello'' None None]"

section \<open>Scheduler: lemmas\<close>

lemma collectPhase_filter: "collectPhase deps P ss = filter (eligible deps P) ss"
  by (induction ss) (auto simp: eligible_def find_None_iff)

lemma addProcessed_eq: "addProcessed P ph = P \<union> projectConfig ` set ph"
  by (induction ph arbitrary: P) auto

lemma buildLoop_laterPhases:
  "buildLoop deps ss n P acc = acc @ laterPhases deps ss n P"
  by (induction n arbitrary: P acc) (simp_all add: Let_def collectPhase_filter addProcessed_eq)

lemma buildPhases_laterPhases: "buildPhases deps ss = laterPhases deps ss (length ss) {}"
  by (simp add: buildPhases_def buildLoop_laterPhases)

lemma laterPhases_cong:
  "(\<And>s. s \<in> set ss \<Longrightarrow> deps (projectConfig s) = deps' (projectConfig s)) \<Longrightarrow>
   laterPhases deps ss n P = laterPhases deps' ss n P"
proof (induction n arbitrary: P)
  case 0
  show ?case by simp
next
  case (Suc n)
  have "filter (eligible deps P) ss = filter (eligible deps' P) ss"
    by (rule filter_cong) (simp_all add: eligible_def Suc.prems)
  with Suc show ?case by (simp add: Let_def)
qed

lemma laterPhases_member:
  "ph \<in> set (laterPhases deps ss n P) \<Longrightarrow> \<exists>Q. ph = filter (eligible deps Q) ss \<and> ph \<noteq> []"
  by (induction n arbitrary: P) (auto simp: Let_def split: if_splits)

lemma filter_member_self: "filter (\<lambda>s. s \<in> set (filter Q ss)) ss = filter Q ss"
  by (rule filter_cong) auto

lemma eligible_cong: "projectConfig s = projectConfig t \<Longrightarrow> eligible deps P s = eligible deps P t"
  by (simp add: eligible_def)

lemma laterPhases_stuck:
  "filter (eligible deps P) ss = [] \<Longrightarrow> laterPhases deps ss n P = []"
  by (induction n) (simp_all add: Let_def)

lemma laterPhases_Suc:
  "laterPhases deps ss (Suc n) P =
     (if filter (eligible deps P) ss = [] then []
      else filter (eligible deps P) ss #
           laterPhases deps ss n (P \<union> projectConfig ` set (filter (eligible deps P) ss)))"
proof (cases "filter (eligible deps P) ss = []")
  case True
  then show ?thesis by (simp only: laterPhases.simps Let_def) (simp add: laterPhases_stuck)
next
  case False
  then show ?thesis by (simp only: laterPhases.simps Let_def) simp
qed

declare laterPhases.simps(2) [simp del]

lemma laterPhases_layered: "layered deps P (phaseSets (laterPhases deps ss n P))"
proof (induction n arbitrary: P)
  case 0
  show ?case by (simp add: phaseSets_def)
next
  case (Suc n)
  show ?case
    unfolding laterPhases_Suc using Suc.IH by (simp add: eligible_def phaseSets_def)
qed

lemma laterPhases_chained:
  "D \<subseteq> P \<Longrightarrow> (\<forall>s \<in> set ss. eligible deps P s \<longrightarrow> (\<exists>d \<in> set (deps (projectConfig s)). d \<in> D)) \<Longrightarrow>
   chained deps D (phaseSets (laterPhases deps ss n P))"
proof (induction n arbitrary: P D)
  case 0
  show ?case by (simp add: phaseSets_def)
next
  case (Suc n)
  let ?ph = "filter (eligible deps P) ss"
  let ?A = "projectConfig ` set ?ph"
  show ?case
  proof (cases "?ph = []")
    case True
    then have "laterPhases deps ss (Suc n) P = []" by (rule laterPhases_stuck)
    then show ?thesis by (simp add: phaseSets_def)
  next
    case False
    have next_dep: "\<forall>s \<in> set ss. eligible deps (P \<union> ?A) s \<longrightarrow> (\<exists>d \<in> set (deps (projectConfig s)). d \<in> ?A)"
    proof (intro ballI impI)
      fix s assume s: "s \<in> set ss" and el: "eligible deps (P \<union> ?A) s"
      show "\<exists>d \<in> set (deps (projectConfig s)). d \<in> ?A"
      proof (rule ccontr)
        assume "\<not> (\<exists>d \<in> set (deps (projectConfig s)). d \<in> ?A)"
        with el have "eligible deps P s" by (auto simp: eligible_def)
        with s have "projectConfig s \<in> ?A" by simp
        with el show False by (simp add: eligible_def)
      qed
    qed
    have "chained deps ?A (phaseSets (laterPhases deps ss n (P \<union> ?A)))"
      by (rule Suc.IH) (use next_dep in auto)
    moreover have "\<forall>p \<in> ?A. \<exists>d \<in> set (deps p). d \<in> D"
      using Suc.prems(2) by auto
    ultimately show ?thesis using False by (simp add: laterPhases_Suc phaseSets_def)
  qed
qed

lemma chained_split: "chained deps D (pre @ A # post) \<Longrightarrow> chained deps A post"
  by (induction pre arbitrary: D) auto

lemma layered_split:
  "layered deps P (pre @ post) \<Longrightarrow> layered deps (P \<union> \<Union> (set pre)) post"
proof (induction pre arbitrary: P)
  case Nil
  then show ?case by simp
next
  case (Cons A pre)
  then have "layered deps ((P \<union> A) \<union> \<Union> (set pre)) post" by simp
  then show ?case by (simp add: Un_assoc)
qed

lemma layered_nth:
  "layered deps P As \<Longrightarrow> i < length As \<Longrightarrow> p \<in> As ! i \<Longrightarrow>
     p \<notin> P \<and> (\<forall>j<i. p \<notin> As ! j) \<and>
     (\<forall>d \<in> set (deps p). d \<in> P \<or> (\<exists>j<i. d \<in> As ! j))"
proof (induction As arbitrary: P i)
  case Nil
  then show ?case by simp
next
  case (Cons A rest)
  show ?case
  proof (cases i)
    case 0
    with Cons.prems show ?thesis by auto
  next
    case (Suc k)
    with Cons.prems have wp: "layered deps (P \<union> A) rest"
      and k: "k < length rest" and s: "p \<in> rest ! k" by simp_all
    note ih = Cons.IH [OF wp k s]
    from ih have a: "p \<notin> P" and a': "p \<notin> A"
      by auto
    have b: "\<forall>j<i. p \<notin> (A # rest) ! j"
    proof (intro allI impI)
      fix j assume "j < i"
      show "p \<notin> (A # rest) ! j"
      proof (cases j)
        case 0
        with a' show ?thesis by simp
      next
        case (Suc j')
        with \<open>j < i\<close> \<open>i = Suc k\<close> have "j' < k" by simp
        with ih Suc show ?thesis by simp
      qed
    qed
    have c: "\<forall>d \<in> set (deps p). d \<in> P \<or> (\<exists>j<i. d \<in> (A # rest) ! j)"
    proof
      fix d assume "d \<in> set (deps p)"
      with ih have "d \<in> P \<union> A \<or> (\<exists>j<k. d \<in> rest ! j)"
        by blast
      then consider "d \<in> P" | "d \<in> A" | j where "j < k" "d \<in> rest ! j"
        by blast
      then show "d \<in> P \<or> (\<exists>j<i. d \<in> (A # rest) ! j)"
      proof cases
        case 1
        then show ?thesis by simp
      next
        case 2
        have "0 < i" using \<open>i = Suc k\<close> by simp
        moreover have "d \<in> (A # rest) ! 0" using 2 by simp
        ultimately show ?thesis by blast
      next
        case 3
        have "Suc j < i" using 3 \<open>i = Suc k\<close> by simp
        moreover have "d \<in> (A # rest) ! Suc j" using 3 by simp
        ultimately show ?thesis by blast
      qed
    qed
    from a b c show ?thesis by blast
  qed
qed

lemma layered_disjoint:
  "layered deps P As \<Longrightarrow> i < length As \<Longrightarrow> j < length As \<Longrightarrow> p \<in> As ! i \<Longrightarrow> p \<in> As ! j \<Longrightarrow> i = j"
proof (rule ccontr)
  assume l: "layered deps P As" and i: "i < length As" and j: "j < length As"
    and pi: "p \<in> As ! i" and pj: "p \<in> As ! j" and ne: "i \<noteq> j"
  from ne consider "i < j" | "j < i" by linarith
  then show False
  proof cases
    case 1
    with layered_nth [OF l j pj] pi show False by blast
  next
    case 2
    with layered_nth [OF l i pi] pj show False by blast
  qed
qed

lemma phaseIndex_Some:
  "phaseIndex L p = Some i \<Longrightarrow> i < length L \<and> p \<in> projectConfig ` set (L ! i)"
proof (induction L arbitrary: i)
  case Nil
  then show ?case by simp
next
  case (Cons ph rest)
  show ?case
  proof (cases "p \<in> projectConfig ` set ph")
    case True
    with Cons.prems show ?thesis by simp
  next
    case False
    with Cons.prems obtain k where "phaseIndex rest p = Some k" "i = Suc k" by auto
    with Cons.IH show ?thesis by simp
  qed
qed

lemma layered_phaseIndex:
  "layered deps P (phaseSets L) \<Longrightarrow> i < length L \<Longrightarrow> p \<in> projectConfig ` set (L ! i) \<Longrightarrow>
     phaseIndex L p = Some i"
proof (induction L arbitrary: P i)
  case Nil
  then show ?case by simp
next
  case (Cons ph rest)
  show ?case
  proof (cases i)
    case 0
    with Cons.prems show ?thesis by simp
  next
    case (Suc k)
    with Cons.prems have wp: "layered deps (P \<union> projectConfig ` set ph) (phaseSets rest)"
      and k: "k < length rest" and s: "p \<in> projectConfig ` set (rest ! k)"
      by (simp_all add: phaseSets_def)
    from k s have "k < length (phaseSets rest)" "p \<in> phaseSets rest ! k"
      by (simp_all add: phaseSets_def)
    from layered_nth [OF wp this] have "p \<notin> projectConfig ` set ph" by blast
    with Cons.IH [OF wp k s] Suc show ?thesis by simp
  qed
qed

lemma mset_filter_split:
  "(\<And>x. x \<in> set xs \<Longrightarrow> A x \<longleftrightarrow> (B x \<or> C x)) \<Longrightarrow>
   (\<And>x. x \<in> set xs \<Longrightarrow> \<not> (B x \<and> C x)) \<Longrightarrow>
   mset (filter A xs) = mset (filter B xs) + mset (filter C xs)"
  by (induction xs) auto

lemma progress:
  assumes closed: "\<forall>s \<in> set ss. set (deps (projectConfig s)) \<subseteq> projectConfig ` set ss"
    and acyc: "acyclic (depRel deps (projectConfig ` set ss))"
    and ne: "unprocessed ss P \<noteq> {}"
  shows "filter (eligible deps P) ss \<noteq> []"
proof -
  let ?V = "projectConfig ` set ss"
  have sub: "depRel deps ?V \<subseteq> ?V \<times> (\<Union>p \<in> ?V. set (deps p))"
    by (auto simp: depRel_def)
  have "finite (?V \<times> (\<Union>p \<in> ?V. set (deps p)))" by simp
  with sub have fin: "finite (depRel deps ?V)" by (rule finite_subset)
  from fin acyc have "wf ((depRel deps ?V)\<inverse>)" by (rule finite_acyclic_wf_converse)
  from wfE_min' [OF this ne]
  obtain z where z: "z \<in> unprocessed ss P"
    and min: "\<And>y. (y, z) \<in> (depRel deps ?V)\<inverse> \<Longrightarrow> y \<notin> unprocessed ss P"
    by blast
  from z obtain s where s: "s \<in> set ss" "projectConfig s = z" "z \<notin> P"
    by (auto simp: unprocessed_def)
  have "set (deps z) \<subseteq> P"
  proof
    fix d assume d: "d \<in> set (deps z)"
    with s have "(d, z) \<in> (depRel deps ?V)\<inverse>" by (auto simp: depRel_def)
    from min [OF this] have "d \<notin> unprocessed ss P" .
    moreover from closed s d have "d \<in> ?V" by blast
    ultimately show "d \<in> P" by (simp add: unprocessed_def)
  qed
  with s have "eligible deps P s" by (simp add: eligible_def)
  with s show ?thesis by (auto simp: filter_empty_conv)
qed

lemma laterPhases_cover:
  assumes closed: "\<forall>s \<in> set ss. set (deps (projectConfig s)) \<subseteq> projectConfig ` set ss"
    and acyc: "acyclic (depRel deps (projectConfig ` set ss))"
  shows "card (unprocessed ss P) \<le> n \<Longrightarrow>
     mset (concat (laterPhases deps ss n P)) = mset (filter (\<lambda>s. projectConfig s \<notin> P) ss)"
proof (induction n arbitrary: P)
  case 0
  have "finite (unprocessed ss P)" by (simp add: unprocessed_def)
  with 0 have "unprocessed ss P = {}" by simp
  then have "filter (\<lambda>s. projectConfig s \<notin> P) ss = []"
    by (auto simp: unprocessed_def filter_empty_conv)
  then show ?case by simp
next
  case (Suc n)
  let ?ph = "filter (eligible deps P) ss"
  let ?P' = "P \<union> projectConfig ` set ?ph"
  show ?case
  proof (cases "?ph = []")
    case True
    with progress [OF closed acyc] have "unprocessed ss P = {}" by blast
    then have "filter (\<lambda>s. projectConfig s \<notin> P) ss = []"
      by (auto simp: unprocessed_def filter_empty_conv)
    moreover from True have "laterPhases deps ss (Suc n) P = []" by (rule laterPhases_stuck)
    ultimately show ?thesis by simp
  next
    case False
    then obtain s where s: "s \<in> set ss" "eligible deps P s"
      by (auto simp: filter_empty_conv)
    have fin: "finite (unprocessed ss P)" by (simp add: unprocessed_def)
    have "projectConfig s \<in> unprocessed ss P" "projectConfig s \<notin> unprocessed ss ?P'"
      using s by (auto simp: unprocessed_def eligible_def)
    then have "unprocessed ss ?P' \<subset> unprocessed ss P"
      by (auto simp: unprocessed_def)
    with fin have "card (unprocessed ss ?P') < card (unprocessed ss P)"
      by (rule psubset_card_mono)
    with Suc.prems have "card (unprocessed ss ?P') \<le> n" by simp
    from Suc.IH [OF this]
    have ih: "mset (concat (laterPhases deps ss n ?P')) =
        mset (filter (\<lambda>s. projectConfig s \<notin> ?P') ss)" .
    have split: "mset (filter (\<lambda>s. projectConfig s \<notin> P) ss) =
        mset (filter (eligible deps P) ss) + mset (filter (\<lambda>s. projectConfig s \<notin> ?P') ss)"
    proof (rule mset_filter_split)
      fix x assume x: "x \<in> set ss"
      show "projectConfig x \<notin> P \<longleftrightarrow> (eligible deps P x \<or> projectConfig x \<notin> ?P')"
      proof
        assume np: "projectConfig x \<notin> P"
        show "eligible deps P x \<or> projectConfig x \<notin> ?P'"
        proof (cases "eligible deps P x")
          case True
          then show ?thesis by simp
        next
          case False
          have "projectConfig x \<notin> projectConfig ` set ?ph"
          proof
            assume "projectConfig x \<in> projectConfig ` set ?ph"
            then obtain t where "t \<in> set ss" "eligible deps P t" "projectConfig t = projectConfig x"
              by auto
            with eligible_cong [of t x deps P] False show False by simp
          qed
          with np show ?thesis by simp
        qed
      next
        assume "eligible deps P x \<or> projectConfig x \<notin> ?P'"
        then show "projectConfig x \<notin> P" by (auto simp: eligible_def)
      qed
      show "\<not> (eligible deps P x \<and> projectConfig x \<notin> ?P')"
        using x by auto
    qed
    from False ih split show ?thesis by (simp add: laterPhases_Suc)
  qed
qed

lemma buildPhases_cover:
  assumes closed: "\<forall>s \<in> set ss. set (deps (projectConfig s)) \<subseteq> projectConfig ` set ss"
    and acyc: "acyclic (depRel deps (projectConfig ` set ss))"
  shows "mset (concat (buildPhases deps ss)) = mset ss"
proof -
  have "card (unprocessed ss {}) \<le> length ss"
    unfolding unprocessed_def using card_image_le [of "set ss" projectConfig] card_length [of ss]
    by simp
  from laterPhases_cover [OF closed acyc this] show ?thesis
    by (simp add: buildPhases_laterPhases)
qed

lemma buildPhases_layered: "layered deps {} (phaseSets (buildPhases deps ss))"
  by (simp add: buildPhases_laterPhases laterPhases_layered)

lemma buildPhases_chained:
  "buildPhases deps ss = pre @ ph # post \<Longrightarrow> chained deps (projectConfig ` set ph) (phaseSets post)"
proof -
  assume eq: "buildPhases deps ss = pre @ ph # post"
  have first: "laterPhases deps ss n P = [] \<or>
      chained deps (hd (phaseSets (laterPhases deps ss n P))) (tl (phaseSets (laterPhases deps ss n P)))" for n P
  proof (cases n)
    case 0
    then show ?thesis by simp
  next
    case (Suc m)
    let ?f = "filter (eligible deps P) ss"
    let ?A = "projectConfig ` set ?f"
    show ?thesis
    proof (cases "?f = []")
      case True
      then have "laterPhases deps ss n P = []" by (rule laterPhases_stuck)
      then show ?thesis by simp
    next
      case False
      have "chained deps ?A (phaseSets (laterPhases deps ss m (P \<union> ?A)))"
      proof (rule laterPhases_chained)
        show "?A \<subseteq> P \<union> ?A" by simp
        show "\<forall>s \<in> set ss. eligible deps (P \<union> ?A) s \<longrightarrow> (\<exists>d \<in> set (deps (projectConfig s)). d \<in> ?A)"
        proof (intro ballI impI)
          fix s assume s: "s \<in> set ss" and el: "eligible deps (P \<union> ?A) s"
          show "\<exists>d \<in> set (deps (projectConfig s)). d \<in> ?A"
          proof (rule ccontr)
            assume "\<not> (\<exists>d \<in> set (deps (projectConfig s)). d \<in> ?A)"
            with el have "eligible deps P s" by (auto simp: eligible_def)
            with s have "projectConfig s \<in> ?A" by simp
            with el show False by (simp add: eligible_def)
          qed
        qed
      qed
      with False show ?thesis by (simp add: Suc laterPhases_Suc phaseSets_def)
    qed
  qed
  from first [of "length ss" "{}"] eq
  have "pre @ ph # post = [] \<or> chained deps (hd (phaseSets (pre @ ph # post))) (tl (phaseSets (pre @ ph # post)))"
    by (simp add: buildPhases_laterPhases)
  then have c: "chained deps (hd (phaseSets (pre @ ph # post))) (tl (phaseSets (pre @ ph # post)))"
    by simp
  show ?thesis
  proof (cases pre)
    case Nil
    with c show ?thesis by (simp add: phaseSets_def)
  next
    case (Cons a pre')
    with c have "chained deps (projectConfig ` set a) (phaseSets pre' @ projectConfig ` set ph # phaseSets post)"
      by (simp add: phaseSets_def)
    then show ?thesis by (rule chained_split)
  qed
qed



lemma depRel_ABC: "depRel depsABC (projectConfig ` set suitesABC) = {(1, 0), (2, 0)}"
  by (auto simp: depRel_def depsABC_def suitesABC_def split: if_splits)

lemma acyclic_ABC: "acyclic (depRel depsABC (projectConfig ` set suitesABC))"
  unfolding depRel_ABC by (rule acyclicI_order [where f = id]) auto

lemma closed_ABC: "\<forall>s \<in> set suitesABC. set (depsABC (projectConfig s)) \<subseteq> projectConfig ` set suitesABC"
  by (simp add: suitesABC_def depsABC_def)

lemma hasFailedDeps_iff: "hasFailedDeps deps S p \<longleftrightarrow> (\<exists>d \<in> set (deps p). d \<notin> S)"
  by (simp add: hasFailedDeps_def list_ex_iff)

lemma skipTestGroups_eq:
  "skipTestGroups gs log = log @ map (\<lambda>test. AppendTestResult test ''skipped'') (concat (map tests gs))"
  by (induction gs arbitrary: log) simp_all

lemma collectPhaseTestGroups_eq:
  "collectPhaseTestGroups deps S prs (gs, log) =
     (gs @ concat (map testGroups (filter (\<lambda>q. \<not> hasFailedDeps deps S (project q)) prs)),
      log @ skippedEvents (filter (\<lambda>q. hasFailedDeps deps S (project q)) prs))"
  by (induction prs arbitrary: gs log) (simp_all add: skippedEvents_def skipTestGroups_eq)

lemma runPhase_eq:
  "runPhase env deps (S, log) ph =
     (if \<not> hasWorkerErrors env (log @ phaseLog deps S ph) (dispatcher ph)
      then addSuccessful env (log @ phaseLog deps S ph) deps (projects ph) S else S,
      log @ phaseLog deps S ph)"
proof (cases "concat (map testGroups (filter (\<lambda>q. \<not> hasFailedDeps deps S (project q)) (projects ph))) = []")
  case True
  then show ?thesis
    by (simp only: runPhase_def collectPhaseTestGroups_eq phaseLog_def Let_def prod.case
        append_Nil append_Nil2 if_False if_True not_True_eq_False not_False_eq_True simp_thms)
next
  case False
  then show ?thesis
    by (simp only: runPhase_def collectPhaseTestGroups_eq phaseLog_def Let_def prod.case
        append_Nil append_Nil2 if_False if_True not_True_eq_False not_False_eq_True simp_thms append_assoc)
qed

lemma runPhase_snd: "snd (runPhase env deps (S, log) ph) = log @ phaseLog deps S ph"
  by (simp only: runPhase_eq snd_conv)

lemma runPhase_fst:
  "fst (runPhase env deps (S, log) ph) =
     (if \<not> hasWorkerErrors env (log @ phaseLog deps S ph) (dispatcher ph)
      then addSuccessful env (log @ phaseLog deps S ph) deps (projects ph) S else S)"
  by (simp only: runPhase_eq fst_conv)

lemma addSuccessful_mono: "S \<subseteq> addSuccessful env log deps prs S"
proof (induction prs arbitrary: S)
  case Nil
  show ?case by simp
next
  case (Cons pr rest)
  from Cons.IH [of "insert (project pr) S"] Cons.IH [of S] show ?case
    by (auto split: if_splits)
qed

lemma addSuccessful_sub: "addSuccessful env log deps prs S \<subseteq> S \<union> project ` set prs"
proof (induction prs arbitrary: S)
  case Nil
  show ?case by simp
next
  case (Cons pr rest)
  from Cons.IH [of "insert (project pr) S"] Cons.IH [of S] show ?case
    by (auto split: if_splits)
qed

lemma addSuccessful_blocked:
  "p \<notin> S \<Longrightarrow> \<exists>d \<in> set (deps p). d \<notin> S \<union> project ` set prs \<Longrightarrow>
   p \<notin> addSuccessful env log deps prs S"
proof (induction prs arbitrary: S)
  case Nil
  then show ?case by simp
next
  case (Cons pr rest)
  from Cons.prems(2) obtain d where d: "d \<in> set (deps p)" "d \<notin> S" "d \<noteq> project pr"
    "d \<notin> project ` set rest" by auto
  show ?case
  proof (cases "\<not> hasFailedDeps deps S (project pr) \<and>
         \<not> list_ex (\<lambda>test. \<not> ok env log test) (allTests (projectSuite pr))")
    case True
    with d have "p \<noteq> project pr" by (auto simp: hasFailedDeps_iff)
    with Cons.prems have 1: "p \<notin> insert (project pr) S" by simp
    from d have 2: "\<exists>d \<in> set (deps p). d \<notin> insert (project pr) S \<union> project ` set rest" by auto
    from Cons.IH [OF 1 2] True show ?thesis by simp
  next
    case False
    from d have 2: "\<exists>d \<in> set (deps p). d \<notin> S \<union> project ` set rest" by auto
    from Cons.IH [OF Cons.prems(1) 2] False show ?thesis by auto
  qed
qed

lemma runPhase_mono: "fst st \<subseteq> fst (runPhase env deps st ph)"
  by (cases st) (simp add: runPhase_fst addSuccessful_mono)

lemma runPhase_sub: "fst (runPhase env deps st ph) \<subseteq> fst st \<union> phaseProjects ph"
  by (cases st) (simp add: runPhase_fst addSuccessful_sub phaseProjects_def)

lemma runPhase_blocked:
  "p \<notin> fst st \<Longrightarrow> \<exists>d \<in> set (deps p). d \<notin> fst st \<union> phaseProjects ph \<Longrightarrow>
   p \<notin> fst (runPhase env deps st ph)"
  by (cases st) (simp add: runPhase_fst addSuccessful_blocked phaseProjects_def)

lemma run_mono: "fst st \<subseteq> fst (foldl (runPhase env deps) st phs)"
proof (induction phs arbitrary: st)
  case Nil
  show ?case by simp
next
  case (Cons ph rest)
  from runPhase_mono [of st env deps ph] Cons.IH [of "runPhase env deps st ph"]
  show ?case by auto
qed

lemma run_sub:
  "fst (foldl (runPhase env deps) st phs) \<subseteq> fst st \<union> \<Union> (set (map phaseProjects phs))"
proof (induction phs arbitrary: st)
  case Nil
  show ?case by simp
next
  case (Cons ph rest)
  from runPhase_sub [of env deps st ph] Cons.IH [of "runPhase env deps st ph"]
  show ?case by auto
qed

lemma createTestGroupsLoop_sets:
  "map phaseProjects (phases (createTestGroupsLoop ctg L ctx)) =
     map phaseProjects (phases ctx) @ phaseSets L"
proof (induction L arbitrary: ctx)
  case Nil
  show ?case by (simp add: phaseSets_def)
next
  case (Cons ph rest)
  have "phaseProjects \<lparr>dispatcher = n, projects = map (\<lambda>suite.
            \<lparr>project = projectConfig suite, projectSuite = suite,
             testGroups = ctg suite\<rparr>) ph\<rparr> = projectConfig ` set ph" for n :: nat
    by (simp add: phaseProjects_def image_image)
  then show ?case
    by (simp add: Cons.IH Let_def phaseSets_def)
qed

lemma createTestGroupsTask_sets:
  "map phaseProjects (phases (createTestGroupsTask ctg deps ss \<lparr>phases = [], maxConcurrentTestGroups = m\<rparr>)) =
     phaseSets (buildPhases deps ss)"
  by (simp add: createTestGroupsTask_def createTestGroupsLoop_sets)

lemma buildPhases_chained_nth:
  assumes k: "k < length (buildPhases deps ss)"
  shows "chained deps (phaseSets (buildPhases deps ss) ! k) (drop (Suc k) (phaseSets (buildPhases deps ss)))"
proof -
  let ?L = "buildPhases deps ss"
  from k have "?L = take k ?L @ ?L ! k # drop (Suc k) ?L" by (rule id_take_nth_drop)
  from buildPhases_chained [OF this]
  have "chained deps (projectConfig ` set (?L ! k)) (phaseSets (drop (Suc k) ?L))" .
  with k show ?thesis by (simp add: phaseSets_def drop_map)
qed

lemma runPrefix_fold:
  "runPrefix env deps phs k = foldl (runPhase env deps) ({}, []) (take k phs)"
  by (simp add: runPrefix_def createRunTestsTask_def)

lemma runPrefix_Suc:
  "k < length phs \<Longrightarrow>
   runPrefix env deps phs (Suc k) = runPhase env deps (runPrefix env deps phs k) (phs ! k)"
  by (simp add: runPrefix_fold take_Suc_conv_app_nth)

lemma runPrefix_all: "length phs \<le> m \<Longrightarrow> runPrefix env deps phs m = foldl (runPhase env deps) ({}, []) phs"
  by (simp add: runPrefix_fold)

lemma run_from_prefix:
  "foldl (runPhase env deps) ({}, []) phs =
     foldl (runPhase env deps) (runPrefix env deps phs k) (drop k phs)"
proof -
  have "foldl (runPhase env deps) ({}, []) (take k phs @ drop k phs) =
     foldl (runPhase env deps) (runPrefix env deps phs k) (drop k phs)"
    unfolding foldl_append runPrefix_fold ..
  then show ?thesis by simp
qed

lemma runPrefix_sub:
  "fst (runPrefix env deps phs k) \<subseteq> \<Union> (set (take k (map phaseProjects phs)))"
  using run_sub [of env deps "({}, [])" "take k phs"] by (simp add: runPrefix_fold take_map)

lemma run_dead:
  "chained deps D (map phaseProjects phs) \<Longrightarrow> layered deps P (map phaseProjects phs) \<Longrightarrow>
   D \<subseteq> P \<Longrightarrow> fst st \<subseteq> P \<Longrightarrow> D \<inter> fst st = {} \<Longrightarrow>
   fst (foldl (runPhase env deps) st phs) = fst st \<and>
   (\<exists>evs. snd (foldl (runPhase env deps) st phs) = snd st @ evs \<and>
          (\<forall>d gs. DispatcherRun d gs \<notin> set evs))"
proof (induction phs arbitrary: st D P)
  case Nil
  show ?case by simp
next
  case (Cons ph rest)
  obtain S log where st: "st = (S, log)" by (cases st)
  let ?A = "phaseProjects ph"
  from Cons.prems(1) have dep: "\<forall>p \<in> ?A. \<exists>d \<in> set (deps p). d \<in> D"
    and ch: "chained deps ?A (map phaseProjects rest)" by simp_all
  from Cons.prems(2) have fresh: "\<forall>p \<in> ?A. p \<notin> P"
    and lay: "layered deps (P \<union> ?A) (map phaseProjects rest)" by simp_all
  from Cons.prems(4,5) st have SP: "S \<subseteq> P" and DS: "D \<inter> S = {}" by simp_all
  have failed: "hasFailedDeps deps S (project q)" if "q \<in> set (projects ph)" for q
  proof -
    from that have "project q \<in> ?A" by (simp add: phaseProjects_def)
    with dep obtain d where "d \<in> set (deps (project q))" "d \<in> D" by blast
    with DS show ?thesis by (auto simp: hasFailedDeps_iff)
  qed
  then have none: "filter (\<lambda>q. \<not> hasFailedDeps deps S (project q)) (projects ph) = []"
    by (simp add: filter_empty_conv)
  have plog: "phaseLog deps S ph = skippedEvents (filter (\<lambda>q. hasFailedDeps deps S (project q)) (projects ph))"
    by (simp add: phaseLog_def none)
  have norun: "\<forall>d gs. DispatcherRun d gs \<notin> set (phaseLog deps S ph)"
    unfolding plog by (auto simp: skippedEvents_def)
  let ?st' = "runPhase env deps st ph"
  have snd': "snd ?st' = log @ phaseLog deps S ph" by (simp add: st runPhase_snd)
  have fst': "fst ?st' = S"
  proof
    show "S \<subseteq> fst ?st'" using runPhase_mono [of st env deps ph] st by simp
    show "fst ?st' \<subseteq> S"
    proof
      fix p assume p: "p \<in> fst ?st'"
      show "p \<in> S"
      proof (rule ccontr)
        assume np: "p \<notin> S"
        with p runPhase_sub [of env deps st ph] st have pA: "p \<in> ?A" by auto
        with dep obtain d where d: "d \<in> set (deps p)" "d \<in> D" by blast
        with DS have "d \<notin> S" by blast
        moreover from d Cons.prems(3) fresh have "d \<notin> ?A" by blast
        ultimately have "\<exists>d \<in> set (deps p). d \<notin> fst st \<union> ?A" using d st by auto
        with np st have "p \<notin> fst ?st'" by (intro runPhase_blocked) simp_all
        with p show False by simp
      qed
    qed
  qed
  have "fst (foldl (runPhase env deps) ?st' rest) = fst ?st' \<and>
     (\<exists>evs. snd (foldl (runPhase env deps) ?st' rest) = snd ?st' @ evs \<and>
          (\<forall>d gs. DispatcherRun d gs \<notin> set evs))"
  proof (rule Cons.IH [OF ch lay])
    show "?A \<subseteq> P \<union> ?A" by simp
    show "fst ?st' \<subseteq> P \<union> ?A" using fst' SP by auto
    show "?A \<inter> fst ?st' = {}" using fst' SP fresh by auto
  qed
  then obtain evs where r: "fst (foldl (runPhase env deps) ?st' rest) = S"
    and evs: "snd (foldl (runPhase env deps) ?st' rest) = log @ phaseLog deps S ph @ evs"
       "\<forall>d gs. DispatcherRun d gs \<notin> set evs"
    using fst' snd' by auto
  from norun evs(2) have "\<forall>d gs. DispatcherRun d gs \<notin> set (phaseLog deps S ph @ evs)" by simp
  with r evs(1) st show ?case by auto
qed

lemma run_never:
  assumes lay: "layered deps {} (map phaseProjects phs)"
    and k: "k < length phs" and p: "p \<in> phaseProjects (phs ! k)"
    and failed: "hasFailedDeps deps (fst (runPrefix env deps phs k)) p"
  shows "p \<notin> fst (runPrefix env deps phs m)"
proof -
  let ?As = "map phaseProjects phs"
  from k p have kA: "k < length ?As" "p \<in> ?As ! k" by simp_all
  have other: "p \<notin> ?As ! j" if "j < length ?As" "j \<noteq> k" for j
    using layered_disjoint [OF lay that(1) kA(1) _ kA(2)] that(2) by blast
  have early: "p \<notin> fst (runPrefix env deps phs m)" if "m \<le> k" for m
  proof
    assume "p \<in> fst (runPrefix env deps phs m)"
    with runPrefix_sub [of env deps phs m] obtain A where A: "A \<in> set (take m ?As)" "p \<in> A" by blast
    then obtain j where "j < length (take m ?As)" "take m ?As ! j = A" by (metis in_set_conv_nth)
    with that k have "j < length ?As" "j \<noteq> k" "?As ! j = A" by auto
    with other A(2) show False by blast
  qed
  have late: "p \<notin> fst (runPrefix env deps phs (Suc k + n))" for n
  proof (induction n)
    case 0
    from failed obtain d where d: "d \<in> set (deps p)" "d \<notin> fst (runPrefix env deps phs k)"
      by (auto simp: hasFailedDeps_iff)
    from layered_nth [OF lay kA] d(1) obtain j where j: "j < k" "d \<in> ?As ! j" by auto
    with kA have "j < length ?As" by simp
    from layered_disjoint [OF lay this kA(1) j(2)] j(1) have "d \<notin> ?As ! k" by blast
    with k have "d \<notin> phaseProjects (phs ! k)" by simp
    with d have "\<exists>d \<in> set (deps p). d \<notin> fst (runPrefix env deps phs k) \<union> phaseProjects (phs ! k)"
      by blast
    with early [of k] have "p \<notin> fst (runPhase env deps (runPrefix env deps phs k) (phs ! k))"
      by (intro runPhase_blocked) simp_all
    with k show ?case by (simp add: runPrefix_Suc)
  next
    case (Suc n)
    show ?case
    proof (cases "Suc k + n < length phs")
      case True
      then have "p \<notin> phaseProjects (phs ! (Suc k + n))" using other [of "Suc k + n"] by simp
      with Suc runPhase_sub [of env deps "runPrefix env deps phs (Suc k + n)" "phs ! (Suc k + n)"]
      have "p \<notin> fst (runPhase env deps (runPrefix env deps phs (Suc k + n)) (phs ! (Suc k + n)))"
        by blast
      with True show ?thesis using runPrefix_Suc [of "Suc k + n" phs env deps] by simp
    next
      case False
      then have "runPrefix env deps phs (Suc k + Suc n) = runPrefix env deps phs (Suc k + n)"
        by (simp add: runPrefix_all)
      with Suc show ?thesis by simp
    qed
  qed
  show ?thesis
  proof (cases "m \<le> k")
    case True
    then show ?thesis by (rule early)
  next
    case False
    then have "m = Suc k + (m - Suc k)" by simp
    with late [of "m - Suc k"] show ?thesis by simp
  qed
qed

lemma filter_removeAll_failed: "\<not> Q x \<Longrightarrow> filter Q (removeAll x xs) = filter Q xs"
  by (induction xs) auto

lemma plannedPhases_sets:
  "map phaseProjects (plannedPhases ctg deps ss) = phaseSets (buildPhases deps ss)"
  by (simp add: plannedPhases_def createTestGroupsTask_sets)

lemma plannedPhases_length: "length (plannedPhases ctg deps ss) = length (buildPhases deps ss)"
  using arg_cong [OF plannedPhases_sets [of ctg deps ss], of length] by (simp add: phaseSets_def)

lemma plannedPhases_layered: "layered deps {} (map phaseProjects (plannedPhases ctg deps ss))"
  by (simp add: plannedPhases_sets buildPhases_layered)

lemma createRunTestsTask_runPrefix:
  "createRunTestsTask env deps context = runPrefix env deps (phases context) (length (phases context))"
  by (simp add: createRunTestsTask_def runPrefix_fold)

lemma buildPhases_ABC:
  "buildPhases depsABC suitesABC =
     [[\<lparr>projectConfig = 0, allTests = [''A test'']\<rparr>],
      [\<lparr>projectConfig = 1, allTests = [''B test'']\<rparr>,
       \<lparr>projectConfig = 2, allTests = [''C test'']\<rparr>]]"
  by (simp add: buildPhases_def depsABC_def suitesABC_def)

lemma planned_ABC:
  "plannedPhases oneGroupPerSuite depsABC suitesABC =
     [\<lparr>dispatcher = 0, projects = [entryA]\<rparr>, \<lparr>dispatcher = 1, projects = [entryB, entryC]\<rparr>]"
  by (simp add: plannedPhases_def createTestGroupsTask_def buildPhases_ABC oneGroupPerSuite_def
      entryA_def entryB_def entryC_def Let_def)

lemma phaseLog_run:
  "DispatcherRun d gs \<in> set (phaseLog deps S ph) \<Longrightarrow>
   d = dispatcher ph \<and>
   gs = concat (map testGroups (filter (\<lambda>q. \<not> hasFailedDeps deps S (project q)) (projects ph)))"
  by (auto simp: phaseLog_def skippedEvents_def Let_def split: if_splits)

lemma phaseLog_skipped:
  assumes "pr \<in> set (projects ph)" "hasFailedDeps deps S (project pr)"
    "g \<in> set (testGroups pr)" "t \<in> set (tests g)"
  shows "AppendTestResult t ''skipped'' \<in> set (phaseLog deps S ph)"
proof -
  from assms(1,2) have "pr \<in> set (filter (\<lambda>q. hasFailedDeps deps S (project q)) (projects ph))"
    by simp
  with assms(3,4) have "AppendTestResult t ''skipped'' \<in>
      set (skippedEvents (filter (\<lambda>q. hasFailedDeps deps S (project q)) (projects ph)))"
    unfolding skippedEvents_def by auto
  then show ?thesis unfolding phaseLog_def by simp
qed

lemma runPrefix_log:
  "n \<le> length phs \<Longrightarrow>
   set (snd (runPrefix env deps phs n)) =
     (\<Union>j \<in> {..<n}. set (phaseLog deps (fst (runPrefix env deps phs j)) (phs ! j)))"
proof (induction n)
  case 0
  show ?case by (simp add: runPrefix_fold)
next
  case (Suc n)
  then have n: "n < length phs" by simp
  obtain S lg where st: "runPrefix env deps phs n = (S, lg)" by (cases "runPrefix env deps phs n")
  have "snd (runPrefix env deps phs (Suc n)) = lg @ phaseLog deps S (phs ! n)"
    by (simp add: runPrefix_Suc [OF n] st runPhase_snd)
  moreover from Suc.IH n st have "set lg =
      (\<Union>j \<in> {..<n}. set (phaseLog deps (fst (runPrefix env deps phs j)) (phs ! j)))" by simp
  ultimately show ?case using st by (simp add: lessThan_Suc Un_commute)
qed



lemma task_AFails:
  "createRunTestsTask envAFails depsABC
     \<lparr>phases = [\<lparr>dispatcher = 0, projects = [entryA]\<rparr>, \<lparr>dispatcher = 1, projects = [entryB, entryC]\<rparr>],
      maxConcurrentTestGroups = 1\<rparr> =
   ({}, [DispatcherRun 0 [\<lparr>tests = [''A test'']\<rparr>], DispatcherStop 0,
         AppendTestResult ''B test'' ''skipped'', AppendTestResult ''C test'' ''skipped''])"
  by (simp add: createRunTestsTask_def runPhase_def hasFailedDeps_def depsABC_def
      entryA_def entryB_def entryC_def envAFails_def)

lemma prefix1_AFails:
  "runPrefix envAFails depsABC
     [\<lparr>dispatcher = 0, projects = [entryA]\<rparr>, \<lparr>dispatcher = 1, projects = [entryB, entryC]\<rparr>] 1 =
   ({}, [DispatcherRun 0 [\<lparr>tests = [''A test'']\<rparr>], DispatcherStop 0])"
  by (simp add: runPrefix_fold runPhase_def hasFailedDeps_def depsABC_def entryA_def envAFails_def)



section \<open>The test loader: lemmas\<close>



lemma loadTestFile_cached:
  "cachedFileSuites st file = Some s \<Longrightarrow>
   loadTestFile imps rootDir file environment (st, errs) = (Inr s, st, errs)"
  by (simp add: loadTestFile_def)

lemma loadTestFile_fresh_ok:
  assumes "cachedFileSuites st file = None" "snd (requireOrImport imps (required st) file) = None"
  shows "loadTestFile imps rootDir file environment (st, errs) =
     (Inr (length (heap st)),
      st\<lparr>heap := heap st @ [fixLocation imps (rawSuite imps rootDir file st)],
         cachedFileSuites := (cachedFileSuites st)(file \<mapsto> length (heap st)),
         currentlyLoadingFileSuite := None,
         required := required st @ [file]\<rparr>, errs)"
  using assms by (simp add: loadTestFile_def Let_def rawSuite_def)

lemma loadTestFile_fresh_throw_loader:
  assumes "cachedFileSuites st file = None" "snd (requireOrImport imps (required st) file) = Some x"
  shows "loadTestFile imps rootDir file loader (st, errs) =
     (Inr (length (heap st)),
      st\<lparr>heap := heap st @ [fixLocation imps (rawSuite imps rootDir file st)],
         currentlyLoadingFileSuite := None,
         required := required st @ [file]\<rparr>, errs @ [serializeError imps x])"
  using assms by (simp add: loadTestFile_def Let_def rawSuite_def)

lemma loadTestFile_fresh_throw_worker:
  assumes "cachedFileSuites st file = None" "snd (requireOrImport imps (required st) file) = Some x"
  shows "loadTestFile imps rootDir file worker (st, errs) =
     (Inl x,
      st\<lparr>heap := heap st @ [rawSuite imps rootDir file st],
         currentlyLoadingFileSuite := None,
         required := required st @ [file]\<rparr>, errs)"
  using assms by (simp add: loadTestFile_def Let_def rawSuite_def)





lemma loadTestFile_uncached_required:
  assumes "cachedFileSuites st file = None"
  shows "required (fst (afterLoad imps rootDir file environment (st, errs))) = required st @ [file]"
proof (cases "snd (requireOrImport imps (required st) file)")
  case None
  with assms show ?thesis by (simp add: afterLoad_def loadTestFile_fresh_ok)
next
  case (Some x)
  show ?thesis
  proof (cases environment)
    case loader
    with assms Some show ?thesis by (simp add: afterLoad_def loadTestFile_fresh_throw_loader)
  next
    case worker
    with assms Some show ?thesis by (simp add: afterLoad_def loadTestFile_fresh_throw_worker)
  qed
qed

lemma loadTestFile_throw_uncached:
  assumes "cachedFileSuites st file = None" "snd (requireOrImport imps (required st) file) = Some x"
  shows "cachedFileSuites (fst (afterLoad imps rootDir file environment (st, errs))) file = None"
proof (cases environment)
  case loader
  with assms show ?thesis by (simp add: afterLoad_def loadTestFile_fresh_throw_loader)
next
  case worker
  with assms show ?thesis by (simp add: afterLoad_def loadTestFile_fresh_throw_worker)
qed

lemma importThrows_bad: "importThrows importsBadFile emptyLoader ''bad.spec.ts'' = Some ''SyntaxError''"
  by (simp add: importThrows_def importsBadFile_def emptyLoader_def)

lemma importThrows_good: "importThrows importsBadFile emptyLoader ''a.spec.ts'' = None"
  by (simp add: importThrows_def importsBadFile_def emptyLoader_def)

lemma first_load_good:
  "fst (loadTestFile importsBadFile ''tests'' ''a.spec.ts'' loader (emptyLoader, [])) = Inr 0"
  by (simp add: loadTestFile_def Let_def importsBadFile_def emptyLoader_def)

section \<open>Reporter multiplexer: lemmas\<close>

lemma deliveredTo_append: "deliveredTo r (a @ b) = deliveredTo r a @ deliveredTo r b"
  by (induction r a rule: deliveredTo.induct) simp_all

lemma lifecycleTo_append: "lifecycleTo r (a @ b) = lifecycleTo r a @ lifecycleTo r b"
  by (simp add: lifecycleTo_def deliveredTo_append)

lemma forEach_acc:
  assumes step: "\<And>x st. I st \<Longrightarrow> \<exists>st'. body x st = (None, st') \<and> I st' \<and> F st' = F st @ g x"
  shows "I st \<Longrightarrow> \<exists>st'. forEach xs body st = (None, st') \<and> I st' \<and> F st' = F st @ concat (map g xs)"
proof (induction xs arbitrary: st)
  case Nil
  then show ?case by simp
next
  case (Cons x xs)
  from step [OF Cons.prems, of x] obtain st1 where
    b: "body x st = (None, st1)" and i: "I st1" and f: "F st1 = F st @ g x" by blast
  from Cons.IH [OF i] obtain st' where
    r: "forEach xs body st1 = (None, st')" and i': "I st'" and f': "F st' = F st1 @ concat (map g xs)"
    by blast
  from b r i' f f' show ?case by simp
qed

lemma forEach_inv:
  assumes step: "\<And>x st. I st \<Longrightarrow> I (snd (body x st))"
  shows "I st \<Longrightarrow> I (snd (forEach xs body st))"
proof (induction xs arbitrary: st)
  case Nil
  then show ?case by simp
next
  case (Cons x xs)
  from step [OF Cons.prems, of x] have i: "I (snd (body x st))" .
  show ?case
  proof (cases "body x st")
    case (Pair e st1)
    with i have i1: "I st1" by simp
    show ?thesis
    proof (cases e)
      case None
      with Pair Cons.IH [OF i1] show ?thesis by simp
    next
      case (Some a)
      with Pair i1 show ?thesis by simp
    qed
  qed
qed

lemma wrap_invoke:
  "wrap (invoke throws r c) st =
     (None, st\<lparr>trace := trace st @
        (if throws (trace st) r c then [Invoke r c True, ConsoleError (ReporterException r c)]
         else [Invoke r c False])\<rparr>)"
  by (simp add: wrap_def invoke_def)

lemma wrappedDeliveries_step:
  "wrappedDeliveries c rs evs \<Longrightarrow>
   wrappedDeliveries c (r # rs) ((if b then [Invoke r c True, ConsoleError (ReporterException r c)]
         else [Invoke r c False]) @ evs)"
  by simp

lemma broadcast_wrapped:
  "\<exists>evs. forEach rs (\<lambda>reporter. wrap (invoke throws reporter c)) st =
           (None, st\<lparr>trace := trace st @ evs\<rparr>) \<and>
         wrappedDeliveries c rs evs \<and>
         deliveredTo r evs = replicate (count_list rs r) c"
proof (induction rs arbitrary: st)
  case Nil
  show ?case by simp
next
  case (Cons a rs)
  let ?e = "if throws (trace st) a c then [Invoke a c True, ConsoleError (ReporterException a c)]
         else [Invoke a c False]"
  let ?st1 = "st\<lparr>trace := trace st @ ?e\<rparr>"
  from Cons.IH [of ?st1] obtain evs where
    r: "forEach rs (\<lambda>reporter. wrap (invoke throws reporter c)) ?st1 =
           (None, ?st1\<lparr>trace := trace ?st1 @ evs\<rparr>)"
    and w: "wrappedDeliveries c rs evs" and d: "deliveredTo r evs = replicate (count_list rs r) c"
    by blast
  have 1: "forEach (a # rs) (\<lambda>reporter. wrap (invoke throws reporter c)) st =
      (None, st\<lparr>trace := trace st @ (?e @ evs)\<rparr>)"
    using r by (simp add: wrap_invoke)
  have 2: "wrappedDeliveries c (a # rs) (?e @ evs)"
    using w by (rule wrappedDeliveries_step)
  have 3: "deliveredTo r (?e @ evs) = replicate (count_list (a # rs) r) c"
    using d by (simp add: deliveredTo_append)
  from 1 2 3 show ?case by blast
qed

lemma broadcast_deliversToAll:
  "deliversToAll st c (forEach (reporters st) (\<lambda>reporter. wrap (invoke throws reporter c)) st)"
proof -
  have "\<exists>evs. forEach (reporters st) (\<lambda>reporter. wrap (invoke throws reporter c)) st =
           (None, st\<lparr>trace := trace st @ evs\<rparr>) \<and>
         wrappedDeliveries c (reporters st) evs \<and>
         (\<forall>r. deliveredTo r evs = replicate (count_list (reporters st) r) c)"
  proof -
    obtain evs where e: "forEach (reporters st) (\<lambda>reporter. wrap (invoke throws reporter c)) st =
           (None, st\<lparr>trace := trace st @ evs\<rparr>)" and w: "wrappedDeliveries c (reporters st) evs"
      using broadcast_wrapped [of "reporters st" throws c st] by blast
    have "deliveredTo r evs = replicate (count_list (reporters st) r) c" for r
    proof -
      obtain evs' where e': "forEach (reporters st) (\<lambda>reporter. wrap (invoke throws reporter c)) st =
           (None, st\<lparr>trace := trace st @ evs'\<rparr>)"
        and d: "deliveredTo r evs' = replicate (count_list (reporters st) r) c"
        using broadcast_wrapped [of "reporters st" throws c st r] by blast
      from e e' have "trace (st\<lparr>trace := trace st @ evs\<rparr>) = trace (st\<lparr>trace := trace st @ evs'\<rparr>)"
        by simp
      then have "evs = evs'" by simp
      with d show ?thesis by simp
    qed
    with e w show ?thesis by blast
  qed
  then show ?thesis unfolding deliversToAll_def .
qed

lemma errorsIn_append: "errorsIn (a @ b) = errorsIn a @ errorsIn b"
  by (induction a rule: errorsIn.induct) simp_all

lemma concat_map_if_count:
  "concat (map (\<lambda>x. if x = r then [c] else []) rs) = replicate (count_list rs r) c"
  by (induction rs) simp_all

lemma lifecycleTo_replicate:
  "deliveredTo r evs = replicate n c \<Longrightarrow>
   lifecycleTo r evs = (if isLifecycle c then replicate n c else [])"
  by (simp add: lifecycleTo_def)

lemma broadcast_lifecycle:
  "\<exists>st'. forEach (reporters st) (\<lambda>reporter. wrap (invoke throws reporter c)) st = (None, st') \<and>
     reporters st' = reporters st \<and> deferredErrors st' = deferredErrors st \<and>
     deferredStdIO st' = deferredStdIO st \<and>
     lifecycleTo r (trace st') = lifecycleTo r (trace st) @
        (if isLifecycle c then replicate (count_list (reporters st) r) c else [])"
proof -
  from broadcast_wrapped [of "reporters st" throws c st r] obtain evs where
    e: "forEach (reporters st) (\<lambda>reporter. wrap (invoke throws reporter c)) st =
           (None, st\<lparr>trace := trace st @ evs\<rparr>)"
    and d: "deliveredTo r evs = replicate (count_list (reporters st) r) c" by blast
  from lifecycleTo_replicate [OF d] e show ?thesis
    by (simp add: lifecycleTo_append)
qed

lemma invoke_unwrapped_inv:
  "\<not> isLifecycle c \<Longrightarrow>
   reporters (snd (invoke throws x c st)) = reporters st \<and>
   deferredErrors (snd (invoke throws x c st)) = deferredErrors st \<and>
   deferredStdIO (snd (invoke throws x c st)) = deferredStdIO st \<and>
   lifecycleTo r (trace (snd (invoke throws x c st))) = lifecycleTo r (trace st)"
  by (simp add: invoke_def lifecycleTo_def deliveredTo_append)

lemma onStepEnd_inv:
  fixes st :: "('r, 's, 't, 'e) Multiplexer"
  shows "reporters (snd (onStepEnd throws t res step st)) = reporters st \<and>
   deferredErrors (snd (onStepEnd throws t res step st)) = deferredErrors st \<and>
   deferredStdIO (snd (onStepEnd throws t res step st)) = deferredStdIO st \<and>
   lifecycleTo r (trace (snd (onStepEnd throws t res step st))) = lifecycleTo r (trace st)"
proof -
  let ?I = "\<lambda>s :: ('r, 's, 't, 'e) Multiplexer. reporters s = reporters st \<and> deferredErrors s = deferredErrors st \<and>
     deferredStdIO s = deferredStdIO st \<and> lifecycleTo r (trace s) = lifecycleTo r (trace st)"
  have "?I (snd (forEach (reporters st) (\<lambda>reporter. invoke throws reporter (OnStepEnd t res step)) st))"
  proof (rule forEach_inv [where I = ?I])
    fix x s assume "?I s"
    with invoke_unwrapped_inv [of "OnStepEnd t res step" throws x s r]
    show "?I (snd (invoke throws x (OnStepEnd t res step) s))" by simp
  qed simp
  then show ?thesis by (simp add: onStepEnd_def)
qed

lemma notification_buffering:
  assumes n: "isNotification c" and b: "buffering rs st es"
  shows "buffering rs (snd (applyCall throws c st)) (es @ errorsIn [c]) \<and>
         lifecycleTo r (trace (snd (applyCall throws c st))) = lifecycleTo r (trace st)"
proof (cases c)
  case (ReportBegin x)
  with n show ?thesis by simp
next
  case ReportBeginRollback
  with n show ?thesis by simp
next
  case (Exit x)
  with n show ?thesis by simp
next
  case (TestBegin t res)
  from broadcast_lifecycle [of st throws "OnTestBegin t res" r] b TestBegin show ?thesis
    by (auto simp: onTestBegin_def buffering_def)
next
  case (StdOut chunk t res)
  with b show ?thesis by (auto simp: onStdOut_def buffering_def)
next
  case (StdErr chunk t res)
  with b show ?thesis by (auto simp: onStdErr_def buffering_def)
next
  case (TestEnd t res)
  from broadcast_lifecycle [of st throws "OnTestEnd t res" r] b TestEnd show ?thesis
    by (auto simp: onTestEnd_def buffering_def)
next
  case (Error e)
  with b show ?thesis by (auto simp: onError_def buffering_def)
next
  case (StepBegin t res step)
  from broadcast_lifecycle [of st throws "OnStepBegin t res step" r] b StepBegin show ?thesis
    by (auto simp: onStepBegin_def buffering_def)
next
  case (StepEnd t res step)
  from onStepEnd_inv [of throws t res step st r] b StepEnd show ?thesis
    by (auto simp: buffering_def)
qed

lemma notification_live:
  assumes n: "isNotification c" and l: "live rs st" and one: "count_list rs r = 1"
  shows "live rs (snd (applyCall throws c st)) \<and>
         lifecycleTo r (trace (snd (applyCall throws c st))) =
           lifecycleTo r (trace st) @ map OnError (errorsIn [c])"
proof (cases c)
  case (ReportBegin x)
  with n show ?thesis by simp
next
  case ReportBeginRollback
  with n show ?thesis by simp
next
  case (Exit x)
  with n show ?thesis by simp
next
  case (TestBegin t res)
  from broadcast_lifecycle [of st throws "OnTestBegin t res" r] l TestBegin show ?thesis
    by (auto simp: onTestBegin_def live_def)
next
  case (StdOut chunk t res)
  from broadcast_lifecycle [of st throws "OnStdOut chunk t res" r] l StdOut show ?thesis
    by (auto simp: onStdOut_def live_def)
next
  case (StdErr chunk t res)
  from broadcast_lifecycle [of st throws "OnStdErr chunk t res" r] l StdErr show ?thesis
    by (auto simp: onStdErr_def live_def)
next
  case (TestEnd t res)
  from broadcast_lifecycle [of st throws "OnTestEnd t res" r] l TestEnd show ?thesis
    by (auto simp: onTestEnd_def live_def)
next
  case (Error e)
  from broadcast_lifecycle [of st throws "OnError e" r] l one Error show ?thesis
    by (auto simp: onError_def live_def)
next
  case (StepBegin t res step)
  from broadcast_lifecycle [of st throws "OnStepBegin t res step" r] l StepBegin show ?thesis
    by (auto simp: onStepBegin_def live_def)
next
  case (StepEnd t res step)
  from onStepEnd_inv [of throws t res step st r] l StepEnd show ?thesis
    by (auto simp: live_def)
qed

lemma notifications_buffering:
  "list_all isNotification cs \<Longrightarrow> buffering rs st es \<Longrightarrow>
   buffering rs (applyCalls throws cs st) (es @ errorsIn cs) \<and>
   lifecycleTo r (trace (applyCalls throws cs st)) = lifecycleTo r (trace st)"
proof (induction cs arbitrary: st es)
  case Nil
  then show ?case by (simp add: applyCalls_def)
next
  case (Cons c cs)
  from Cons.prems have n: "isNotification c" and ns: "list_all isNotification cs" by simp_all
  note s = notification_buffering [OF n Cons.prems(2), of throws r]
  from Cons.IH [OF ns s [THEN conjunct1]] s [THEN conjunct2]
  have "buffering rs (applyCalls throws cs (snd (applyCall throws c st))) ((es @ errorsIn [c]) @ errorsIn cs) \<and>
     lifecycleTo r (trace (applyCalls throws cs (snd (applyCall throws c st)))) = lifecycleTo r (trace st)"
    by simp
  moreover have "errorsIn (c # cs) = errorsIn [c] @ errorsIn cs"
    using errorsIn_append [of "[c]" cs] by simp
  ultimately show ?case by (simp add: applyCalls_def)
qed

lemma notifications_live:
  "list_all isNotification cs \<Longrightarrow> live rs st \<Longrightarrow> count_list rs r = 1 \<Longrightarrow>
   live rs (applyCalls throws cs st) \<and>
   lifecycleTo r (trace (applyCalls throws cs st)) = lifecycleTo r (trace st) @ map OnError (errorsIn cs)"
proof (induction cs arbitrary: st)
  case Nil
  then show ?case by (simp add: applyCalls_def)
next
  case (Cons c cs)
  from Cons.prems have n: "isNotification c" and ns: "list_all isNotification cs" by simp_all
  note s = notification_live [OF n Cons.prems(2,3), of throws]
  from Cons.IH [OF ns s [THEN conjunct1] Cons.prems(3)] s [THEN conjunct2]
  have "live rs (applyCalls throws cs (snd (applyCall throws c st))) \<and>
     lifecycleTo r (trace (applyCalls throws cs (snd (applyCall throws c st)))) =
       lifecycleTo r (trace st) @ map OnError (errorsIn [c]) @ map OnError (errorsIn cs)"
    by simp
  moreover have "errorsIn (c # cs) = errorsIn [c] @ errorsIn cs"
    using errorsIn_append [of "[c]" cs] by simp
  ultimately show ?case by (simp add: applyCalls_def)
qed

lemma applyCalls_append:
  "applyCalls throws (a @ b) st = applyCalls throws b (applyCalls throws a st)"
  by (simp add: applyCalls_def)

lemma applyCalls_Cons:
  "applyCalls throws (c # cs) st = applyCalls throws cs (snd (applyCall throws c st))"
  by (simp add: applyCalls_def)

lemma applyCalls_Nil: "applyCalls throws [] st = st"
  by (simp add: applyCalls_def)

lemma lifecycleTo_invoke:
  "isLifecycle c \<Longrightarrow> lifecycleTo r [Invoke x c b] = (if x = r then [c] else [])"
  by (simp add: lifecycleTo_def)

lemma onBegin_buffering:
  fixes st :: "('r, 's, 't, 'e) Multiplexer"
  assumes nb: "\<And>tr x s. \<not> throws tr x (OnBegin s)"
    and b: "buffering rs st es" and one: "count_list rs r = 1"
  shows "\<exists>st'. onBegin throws suite st = (None, st') \<and> live rs st' \<and>
     lifecycleTo r (trace st') = lifecycleTo r (trace st) @ OnBegin suite # map OnError es"
proof -
  from b obtain ios where ios: "deferredStdIO st = Some ios" and rs: "reporters st = rs"
    and es: "deferredErrors st = Some es" by (auto simp: buffering_def)
  let ?F = "\<lambda>s :: ('r, 's, 't, 'e) Multiplexer. lifecycleTo r (trace s)"
  let ?I1 = "\<lambda>s :: ('r, 's, 't, 'e) Multiplexer.
     reporters s = rs \<and> deferredErrors s = Some es \<and> deferredStdIO s = Some ios"
  have "\<exists>st'. forEach rs (\<lambda>reporter. invoke throws reporter (OnBegin suite)) st = (None, st') \<and>
      ?I1 st' \<and> ?F st' = ?F st @ concat (map (\<lambda>x. if x = r then [OnBegin suite] else []) rs)"
  proof (rule forEach_acc [where I = ?I1 and F = ?F])
    fix x and s :: "('r, 's, 't, 'e) Multiplexer" assume "?I1 s"
    then show "\<exists>st'. invoke throws x (OnBegin suite) s = (None, st') \<and> ?I1 st' \<and>
        ?F st' = ?F s @ (if x = r then [OnBegin suite] else [])"
      using nb by (simp add: invoke_def lifecycleTo_append lifecycleTo_invoke)
  next
    show "?I1 st" using rs es ios by simp
  qed
  then obtain st1 where s1: "forEach rs (\<lambda>reporter. invoke throws reporter (OnBegin suite)) st = (None, st1)"
    and i1: "?I1 st1" and f1: "?F st1 = ?F st @ [OnBegin suite]"
    using one by (auto simp: concat_map_if_count)
  let ?I2 = "\<lambda>s :: ('r, 's, 't, 'e) Multiplexer.
     reporters s = rs \<and> deferredErrors s = None \<and> deferredStdIO s = Some ios"
  have "\<exists>st'. forEach es (\<lambda>error. onError throws error) (st1\<lparr>deferredErrors := None\<rparr>) = (None, st') \<and>
      ?I2 st' \<and> ?F st' = ?F (st1\<lparr>deferredErrors := None\<rparr>) @ concat (map (\<lambda>e. [OnError e]) es)"
  proof (rule forEach_acc [where I = ?I2 and F = ?F])
    fix e and s :: "('r, 's, 't, 'e) Multiplexer" assume i: "?I2 s"
    from broadcast_lifecycle [of s throws "OnError e" r] i one
    show "\<exists>st'. onError throws e s = (None, st') \<and> ?I2 st' \<and> ?F st' = ?F s @ [OnError e]"
      by (auto simp: onError_def)
  next
    show "?I2 (st1\<lparr>deferredErrors := None\<rparr>)" using i1 by simp
  qed
  then obtain st2 where s2: "forEach es (\<lambda>error. onError throws error) (st1\<lparr>deferredErrors := None\<rparr>) = (None, st2)"
    and i2: "?I2 st2" and f2: "?F st2 = ?F st1 @ map OnError es"
    by (auto simp: concat_map_singleton)
  let ?flush = "\<lambda>stdio. if ioType stdio = stdout
                              then onStdOut throws (ioChunk stdio) (ioTest stdio) (ioResult stdio)
                              else onStdErr throws (ioChunk stdio) (ioTest stdio) (ioResult stdio)"
  have "\<exists>st'. forEach ios ?flush (st2\<lparr>deferredStdIO := None\<rparr>) = (None, st') \<and>
      live rs st' \<and> ?F st' = ?F (st2\<lparr>deferredStdIO := None\<rparr>) @ concat (map (\<lambda>io. []) ios)"
  proof (rule forEach_acc [where I = "live rs" and F = ?F])
    fix io :: "'t StdIOChunk" and s :: "('r, 's, 't, 'e) Multiplexer" assume l: "live rs s"
    show "\<exists>st'. ?flush io s = (None, st') \<and> live rs st' \<and> ?F st' = ?F s @ []"
    proof (cases "ioType io = stdout")
      case True
      from broadcast_lifecycle [of s throws "OnStdOut (ioChunk io) (ioTest io) (ioResult io)" r] l True
      show ?thesis by (auto simp: onStdOut_def live_def)
    next
      case False
      from broadcast_lifecycle [of s throws "OnStdErr (ioChunk io) (ioTest io) (ioResult io)" r] l False
      show ?thesis by (auto simp: onStdErr_def live_def)
    qed
  next
    show "live rs (st2\<lparr>deferredStdIO := None\<rparr>)" using i2 by (simp add: live_def)
  qed
  then obtain st3 where s3: "forEach ios ?flush (st2\<lparr>deferredStdIO := None\<rparr>) = (None, st3)"
    and l3: "live rs st3" and f3: "?F st3 = ?F st2"
    by auto
  have "onBegin throws suite st = (None, st3)"
    using s1 i1 s2 i2 s3 rs by (simp add: onBegin_def)
  with l3 f1 f2 f3 show ?thesis by simp
qed

lemma onExit_live:
  assumes l: "live rs st" and one: "count_list rs r = 1"
  shows "lifecycleTo r (trace (snd (onExit throws result st))) = lifecycleTo r (trace st) @ [OnEnd result]"
proof -
  from broadcast_lifecycle [of st throws "OnEnd result" r] l one obtain st1 where
    a: "forEach (reporters st) (\<lambda>reporter. wrap (invoke throws reporter (OnEnd result))) st = (None, st1)"
    and r1: "reporters st1 = rs"
    and f1: "lifecycleTo r (trace st1) = lifecycleTo r (trace st) @ [OnEnd result]"
    by (auto simp: live_def)
  from broadcast_lifecycle [of st1 throws OnExit r] obtain st2 where
    b: "forEach (reporters st1) (\<lambda>reporter. wrap (invoke throws reporter OnExit)) st1 = (None, st2)"
    and f2: "lifecycleTo r (trace st2) = lifecycleTo r (trace st1)"
    by auto
  from l have "deferredErrors st = None" by (simp add: live_def)
  with a b have "onExit throws result st = (None, st2)" by (simp add: onExit_def)
  with f1 f2 show ?thesis by simp
qed

lemma onExit_buffering:
  assumes nb: "\<And>tr x s. \<not> throws tr x (OnBegin s)"
    and b: "buffering rs st es" and one: "count_list rs r = 1"
  shows "lifecycleTo r (trace (snd (onExit throws result st))) =
     lifecycleTo r (trace st) @ OnBegin EmptyRootSuite # map OnError es @ [OnEnd result]"
proof -
  from onBegin_buffering [where throws = throws and suite = EmptyRootSuite, OF nb b one] obtain st1 where
    a: "onBegin throws EmptyRootSuite st = (None, st1)" and l: "live rs st1"
    and f: "lifecycleTo r (trace st1) = lifecycleTo r (trace st) @ OnBegin EmptyRootSuite # map OnError es"
    by blast
  from l have d1: "deferredErrors st1 = None" by (simp add: live_def)
  from b have d: "deferredErrors st \<noteq> None" by (simp add: buffering_def)
  have "onExit throws result st = onExit throws result st1"
    using a d d1 by (simp add: onExit_def)
  with onExit_live [OF l one, of throws result] f show ?thesis by simp
qed

lemma throwing_onBegin_example:
  "deliveredTo 0 (trace (applyCalls throwsOnBegin [ReportBegin 5, Exit ''failed'']
      (newMultiplexer [0]))) = [OnBegin (GivenSuite 5), OnBegin EmptyRootSuite]"
  by (simp add: applyCalls_def reportBeginTask_def onBegin_def
      onExit_def newMultiplexer_def invoke_def wrap_def throwsOnBegin_def)

section \<open>Scheduler: claims\<close>

text \<open>
  C8. \<open>buildPhases\<close> is deterministic: its result is a function of the ordered list of
  project suites and of the dependency lists of the projects in that list and of nothing
  else, so two runs on the same configuration return the same phase list; and every phase
  lists its members in input discovery order (it is the input list restricted to the
  members of the phase, hence a subsequence of the input).
\<close>

theorem buildPhases_deterministic:
  "((\<forall>s \<in> set ss. deps (projectConfig s) = deps' (projectConfig s)) \<longrightarrow>
      buildPhases deps ss = buildPhases deps' ss) \<and>
   (\<forall>ph \<in> set (buildPhases deps ss). ph = filter (\<lambda>s. s \<in> set ph) ss \<and> subseq ph ss)"
proof (intro conjI impI ballI)
  assume "\<forall>s \<in> set ss. deps (projectConfig s) = deps' (projectConfig s)"
  then show "buildPhases deps ss = buildPhases deps' ss"
    unfolding buildPhases_laterPhases by (intro laterPhases_cong) simp
next
  fix ph assume "ph \<in> set (buildPhases deps ss)"
  then obtain Q where ph: "ph = filter (eligible deps Q) ss"
    using laterPhases_member [of ph deps ss "length ss" "{}"]
    by (auto simp: buildPhases_laterPhases)
  show "ph = filter (\<lambda>s. s \<in> set ph) ss"
    unfolding ph by (rule filter_member_self [symmetric])
  show "subseq ph ss"
    unfolding ph by simp
qed

text \<open>
  C8 at the configuration \<open>A\<close>, \<open>B \<rightarrow> A\<close>, \<open>C \<rightarrow> A\<close>: changing the dependency list of a
  project that is not in the input does not change the phases, and the phase
  \<open>[B, C]\<close> is in input order.
\<close>

theorem buildPhases_deterministic_witness:
  "buildPhases depsABC suitesABC =
     [[\<lparr>projectConfig = 0, allTests = [''A test'']\<rparr>],
      [\<lparr>projectConfig = 1, allTests = [''B test'']\<rparr>,
       \<lparr>projectConfig = 2, allTests = [''C test'']\<rparr>]] \<and>
   buildPhases depsABC suitesABC = buildPhases (\<lambda>p. if p < 3 then depsABC p else [7]) suitesABC \<and>
   subseq [\<lparr>projectConfig = 1, allTests = [''B test'']\<rparr>,
           \<lparr>projectConfig = 2, allTests = [''C test'']\<rparr>] suitesABC"
proof -
  note ph = buildPhases_ABC
  have agree: "\<forall>s \<in> set suitesABC.
      depsABC (projectConfig s) = (\<lambda>p. if p < 3 then depsABC p else [7]) (projectConfig s)"
    by (simp add: suitesABC_def)
  note det = buildPhases_deterministic [of suitesABC depsABC "\<lambda>p. if p < 3 then depsABC p else [7]"]
  have same: "buildPhases depsABC suitesABC =
      buildPhases (\<lambda>p. if p < 3 then depsABC p else [7]) suitesABC"
    using det agree by blast
  have "[\<lparr>projectConfig = 1, allTests = [''B test'']\<rparr>,
         \<lparr>projectConfig = 2, allTests = [''C test'']\<rparr>] \<in> set (buildPhases depsABC suitesABC)"
    unfolding ph by simp
  with det have sub: "subseq [\<lparr>projectConfig = 1, allTests = [''B test'']\<rparr>,
         \<lparr>projectConfig = 2, allTests = [''C test'']\<rparr>] suitesABC"
    by blast
  from ph same sub show ?thesis by blast
qed

text \<open>
  C2. For every acyclic project dependency graph (the dependencies of the input projects
  are input projects, and the dependency relation on them has no cycle), \<open>buildPhases\<close>
  assigns each input project suite to exactly one phase: the phases together hold every
  suite exactly once, no other phase holds a suite of the same project, and the phase
  index of each project is strictly greater than the phase index of each of its
  dependencies.
\<close>

theorem buildPhases_partition_order:
  assumes closed: "\<forall>s \<in> set ss. set (deps (projectConfig s)) \<subseteq> projectConfig ` set ss"
    and acyc: "acyclic (depRel deps (projectConfig ` set ss))"
  shows "mset (concat (buildPhases deps ss)) = mset ss \<and>
     (\<forall>s \<in> set ss. \<exists>i < length (buildPhases deps ss).
        s \<in> set (buildPhases deps ss ! i) \<and>
        phaseIndex (buildPhases deps ss) (projectConfig s) = Some i \<and>
        (\<forall>j < length (buildPhases deps ss).
            j \<noteq> i \<longrightarrow> projectConfig s \<notin> projectConfig ` set (buildPhases deps ss ! j)) \<and>
        (\<forall>d \<in> set (deps (projectConfig s)).
            \<exists>j < i. phaseIndex (buildPhases deps ss) d = Some j))"
proof (intro conjI ballI)
  let ?L = "buildPhases deps ss"
  note lay = buildPhases_layered [of deps ss]
  have len: "length (phaseSets ?L) = length ?L" by (simp add: phaseSets_def)
  have nth: "phaseSets ?L ! i = projectConfig ` set (?L ! i)" if "i < length ?L" for i
    using that by (simp add: phaseSets_def)
  show cover: "mset (concat ?L) = mset ss" by (rule buildPhases_cover [OF closed acyc])
  fix s assume s: "s \<in> set ss"
  from cover have "set (concat ?L) = set ss" by (rule mset_eq_setD)
  with s obtain ph where "ph \<in> set ?L" "s \<in> set ph" by auto
  then obtain i where i: "i < length ?L" "s \<in> set (?L ! i)" by (metis in_set_conv_nth)
  then have pi: "projectConfig s \<in> projectConfig ` set (?L ! i)" by simp
  have idx: "phaseIndex ?L (projectConfig s) = Some i"
    by (rule layered_phaseIndex [OF lay i(1) pi])
  have uniq: "\<forall>j < length ?L. j \<noteq> i \<longrightarrow> projectConfig s \<notin> projectConfig ` set (?L ! j)"
  proof (intro allI impI notI)
    fix j assume j: "j < length ?L" "j \<noteq> i" "projectConfig s \<in> projectConfig ` set (?L ! j)"
    from layered_phaseIndex [OF lay j(1) j(3)] idx j(2) show False by simp
  qed
  have depsEarlier: "\<forall>d \<in> set (deps (projectConfig s)). \<exists>j < i. phaseIndex ?L d = Some j"
  proof
    fix d assume d: "d \<in> set (deps (projectConfig s))"
    from i pi have "i < length (phaseSets ?L)" "projectConfig s \<in> phaseSets ?L ! i"
      by (simp_all add: len nth)
    from layered_nth [OF lay this] d obtain j where j: "j < i" "d \<in> phaseSets ?L ! j" by auto
    with i have jl: "j < length ?L" by simp
    with j have "d \<in> projectConfig ` set (?L ! j)" by (simp add: nth)
    from layered_phaseIndex [OF lay jl this] j show "\<exists>j < i. phaseIndex ?L d = Some j" by blast
  qed
  from i idx uniq depsEarlier
  show "\<exists>i < length ?L. s \<in> set (?L ! i) \<and> phaseIndex ?L (projectConfig s) = Some i \<and>
        (\<forall>j < length ?L. j \<noteq> i \<longrightarrow> projectConfig s \<notin> projectConfig ` set (?L ! j)) \<and>
        (\<forall>d \<in> set (deps (projectConfig s)). \<exists>j < i. phaseIndex ?L d = Some j)"
    by blast
qed

text \<open>C2 at the configuration \<open>A\<close>, \<open>B \<rightarrow> A\<close>, \<open>C \<rightarrow> A\<close>, which is closed and acyclic.\<close>

theorem buildPhases_partition_order_witness:
  "list_all (\<lambda>s. set (depsABC (projectConfig s)) \<subseteq> projectConfig ` set suitesABC) suitesABC \<and>
   acyclic (depRel depsABC (projectConfig ` set suitesABC)) \<and>
   mset (concat (buildPhases depsABC suitesABC)) = mset suitesABC \<and>
   (\<exists>i j. phaseIndex (buildPhases depsABC suitesABC) 1 = Some i \<and>
          phaseIndex (buildPhases depsABC suitesABC) 0 = Some j \<and> j < i)"
proof -
  note inst = buildPhases_partition_order [OF closed_ABC acyclic_ABC]
  have B: "\<lparr>projectConfig = 1, allTests = [''B test'']\<rparr> \<in> set suitesABC"
    by (simp add: suitesABC_def)
  have d: "0 \<in> set (depsABC (projectConfig \<lparr>projectConfig = 1::nat, allTests = [''B test'']\<rparr>))"
    by (simp add: depsABC_def)
  from inst [THEN conjunct2, rule_format, OF B]
  obtain i where i: "phaseIndex (buildPhases depsABC suitesABC) 1 = Some i"
    and ds: "\<forall>d \<in> set (depsABC (projectConfig \<lparr>projectConfig = 1::nat, allTests = [''B test'']\<rparr>)).
        \<exists>j < i. phaseIndex (buildPhases depsABC suitesABC) d = Some j"
    by auto
  from ds d obtain j where "j < i" "phaseIndex (buildPhases depsABC suitesABC) 0 = Some j"
    by blast
  with i have "\<exists>i j. phaseIndex (buildPhases depsABC suitesABC) 1 = Some i \<and>
          phaseIndex (buildPhases depsABC suitesABC) 0 = Some j \<and> j < i" by blast
  moreover have "list_all (\<lambda>s. set (depsABC (projectConfig s)) \<subseteq> projectConfig ` set suitesABC) suitesABC"
    using closed_ABC by (simp add: list_all_iff)
  ultimately show ?thesis using inst [THEN conjunct1] acyclic_ABC by blast
qed



text \<open>
  C1. \<open>createRunTestsTask\<close> is run on the phases that \<open>createTestGroupsTask\<close> builds.
  Let \<open>pr\<close> be a project entry of phase \<open>k\<close> whose dependency list contains a project
  that is not in the successful set of the task when it has finished the phases before
  \<open>k\<close>. Then in the events of the task every test of every test group of \<open>pr\<close>
  receives a result with status \<open>skipped\<close>; every call of \<open>dispatcher.run\<close> that the
  task makes is made by the dispatcher of some phase with the test groups of entries of
  that phase other than \<open>pr\<close> (those without a failed dependency), so no test group of
  \<open>pr\<close> is passed to \<open>dispatcher.run\<close>; and the project is in the successful set of the
  task at no point of its loop, the end included.
\<close>

theorem failed_dependency_skips_project:
  "\<forall>k < length (plannedPhases ctg deps ss). \<forall>pr \<in> set (projects (plannedPhases ctg deps ss ! k)).
     hasFailedDeps deps (fst (runPrefix env deps (plannedPhases ctg deps ss) k)) (project pr) \<longrightarrow>
       (\<forall>g \<in> set (testGroups pr). \<forall>t \<in> set (tests g).
          AppendTestResult t ''skipped'' \<in>
            set (snd (createRunTestsTask env deps
                  \<lparr>phases = plannedPhases ctg deps ss, maxConcurrentTestGroups = n\<rparr>))) \<and>
       (\<forall>d gs. DispatcherRun d gs \<in>
            set (snd (createRunTestsTask env deps
                  \<lparr>phases = plannedPhases ctg deps ss, maxConcurrentTestGroups = n\<rparr>)) \<longrightarrow>
          (\<exists>j < length (plannedPhases ctg deps ss).
             d = dispatcher (plannedPhases ctg deps ss ! j) \<and>
             gs = concat (map testGroups
                    (filter (\<lambda>q. \<not> hasFailedDeps deps
                                    (fst (runPrefix env deps (plannedPhases ctg deps ss) j)) (project q))
                       (removeAll pr (projects (plannedPhases ctg deps ss ! j))))))) \<and>
       (\<forall>m. project pr \<notin> fst (runPrefix env deps (plannedPhases ctg deps ss) m)) \<and>
       project pr \<notin> fst (createRunTestsTask env deps
                          \<lparr>phases = plannedPhases ctg deps ss, maxConcurrentTestGroups = n\<rparr>)"
proof (intro allI impI ballI)
  let ?phs = "plannedPhases ctg deps ss"
  let ?task = "createRunTestsTask env deps \<lparr>phases = ?phs, maxConcurrentTestGroups = n\<rparr>"
  fix k pr
  assume k: "k < length ?phs" and pr: "pr \<in> set (projects (?phs ! k))"
  let ?S = "\<lambda>j. fst (runPrefix env deps ?phs j)"
  assume failed: "hasFailedDeps deps (?S k) (project pr)"
  have task: "?task = runPrefix env deps ?phs (length ?phs)"
    by (simp add: createRunTestsTask_runPrefix)
  have log: "set (snd ?task) = (\<Union>j \<in> {..<length ?phs}. set (phaseLog deps (?S j) (?phs ! j)))"
    unfolding task by (rule runPrefix_log) simp
  from pr have pin: "project pr \<in> phaseProjects (?phs ! k)" by (simp add: phaseProjects_def)
  have skipped: "\<forall>g \<in> set (testGroups pr). \<forall>t \<in> set (tests g).
      AppendTestResult t ''skipped'' \<in> set (snd ?task)"
  proof (intro ballI)
    fix g t assume g: "g \<in> set (testGroups pr)" and t: "t \<in> set (tests g)"
    from phaseLog_skipped [OF pr failed g t] k
    show "AppendTestResult t ''skipped'' \<in> set (snd ?task)"
      unfolding log by blast
  qed
  have notrun: "\<forall>d gs. DispatcherRun d gs \<in> set (snd ?task) \<longrightarrow>
      (\<exists>j < length ?phs. d = dispatcher (?phs ! j) \<and>
         gs = concat (map testGroups (filter (\<lambda>q. \<not> hasFailedDeps deps (?S j) (project q))
                    (removeAll pr (projects (?phs ! j))))))"
  proof (intro allI impI)
    fix d gs assume "DispatcherRun d gs \<in> set (snd ?task)"
    then obtain j where j: "j < length ?phs"
      and e: "DispatcherRun d gs \<in> set (phaseLog deps (?S j) (?phs ! j))"
      unfolding log by blast
    from phaseLog_run [OF e] have d: "d = dispatcher (?phs ! j)"
      and gs: "gs = concat (map testGroups (filter (\<lambda>q. \<not> hasFailedDeps deps (?S j) (project q))
                    (projects (?phs ! j))))" by simp_all
    have "filter (\<lambda>q. \<not> hasFailedDeps deps (?S j) (project q)) (removeAll pr (projects (?phs ! j)))
        = filter (\<lambda>q. \<not> hasFailedDeps deps (?S j) (project q)) (projects (?phs ! j))"
    proof (cases "j = k")
      case True
      with failed show ?thesis by (intro filter_removeAll_failed) simp
    next
      case False
      have "pr \<notin> set (projects (?phs ! j))"
      proof
        assume "pr \<in> set (projects (?phs ! j))"
        then have "project pr \<in> phaseProjects (?phs ! j)" by (simp add: phaseProjects_def)
        with pin j k have "project pr \<in> map phaseProjects ?phs ! j" "project pr \<in> map phaseProjects ?phs ! k"
          by simp_all
        from layered_disjoint [OF plannedPhases_layered _ _ this] j k False show False by simp
      qed
      then show ?thesis by simp
    qed
    with gs d j show "\<exists>j < length ?phs. d = dispatcher (?phs ! j) \<and>
         gs = concat (map testGroups (filter (\<lambda>q. \<not> hasFailedDeps deps (?S j) (project q))
                    (removeAll pr (projects (?phs ! j)))))"
      by auto
  qed
  have never: "project pr \<notin> fst (runPrefix env deps ?phs m)" for m
    by (rule run_never [OF plannedPhases_layered k pin failed])
  have final: "project pr \<notin> fst ?task"
    using never [of "length ?phs"] by (simp add: task)
  from skipped notrun never final
  show "(\<forall>g \<in> set (testGroups pr). \<forall>t \<in> set (tests g).
          AppendTestResult t ''skipped'' \<in> set (snd ?task)) \<and>
       (\<forall>d gs. DispatcherRun d gs \<in> set (snd ?task) \<longrightarrow>
          (\<exists>j < length ?phs. d = dispatcher (?phs ! j) \<and>
             gs = concat (map testGroups (filter (\<lambda>q. \<not> hasFailedDeps deps (?S j) (project q))
                    (removeAll pr (projects (?phs ! j))))))) \<and>
       (\<forall>m. project pr \<notin> fst (runPrefix env deps ?phs m)) \<and>
       project pr \<notin> fst ?task"
    by blast
qed

text \<open>
  C1 at the configuration \<open>A\<close>, \<open>B \<rightarrow> A\<close>, \<open>C \<rightarrow> A\<close> where the test of \<open>A\<close> fails (the
  test \<open>should report skipped dependent tests\<close>): the task dispatches the group of \<open>A\<close>
  only, marks the tests of \<open>B\<close> and \<open>C\<close> skipped, and \<open>B\<close> is not successful.
\<close>

theorem failed_dependency_skips_project_witness:
  "1 < length (plannedPhases oneGroupPerSuite depsABC suitesABC) \<and>
   entryB \<in> set (projects (plannedPhases oneGroupPerSuite depsABC suitesABC ! 1)) \<and>
   hasFailedDeps depsABC
     (fst (runPrefix envAFails depsABC (plannedPhases oneGroupPerSuite depsABC suitesABC) 1))
     (project entryB) \<and>
   AppendTestResult ''B test'' ''skipped'' \<in>
     set (snd (createRunTestsTask envAFails depsABC
          \<lparr>phases = plannedPhases oneGroupPerSuite depsABC suitesABC, maxConcurrentTestGroups = 1\<rparr>)) \<and>
   snd (createRunTestsTask envAFails depsABC
          \<lparr>phases = plannedPhases oneGroupPerSuite depsABC suitesABC, maxConcurrentTestGroups = 1\<rparr>) =
     [DispatcherRun 0 [\<lparr>tests = [''A test'']\<rparr>], DispatcherStop 0,
      AppendTestResult ''B test'' ''skipped'', AppendTestResult ''C test'' ''skipped''] \<and>
   1 \<notin> fst (createRunTestsTask envAFails depsABC
          \<lparr>phases = plannedPhases oneGroupPerSuite depsABC suitesABC, maxConcurrentTestGroups = 1\<rparr>)"
proof -
  let ?phs = "plannedPhases oneGroupPerSuite depsABC suitesABC"
  have h1: "1 < length ?phs" by (simp add: planned_ABC)
  have h2: "entryB \<in> set (projects (?phs ! 1))" by (simp add: planned_ABC)
  have h3: "hasFailedDeps depsABC (fst (runPrefix envAFails depsABC ?phs 1)) (project entryB)"
    unfolding planned_ABC prefix1_AFails by (simp add: hasFailedDeps_def depsABC_def entryB_def)
  note inst = failed_dependency_skips_project [where ctg = oneGroupPerSuite and deps = depsABC
      and ss = suitesABC and env = envAFails and n = 1, rule_format, OF h1 h2 h3]
  note i1 = inst [THEN conjunct1]
  note i4 = inst [THEN conjunct2, THEN conjunct2, THEN conjunct2]
  have tg: "\<lparr>tests = [''B test'']\<rparr> \<in> set (testGroups entryB)"
    by (simp add: entryB_def)
  have tt: "''B test'' \<in> set (tests \<lparr>tests = [''B test'']\<rparr>)"
    by simp
  have c1: "AppendTestResult ''B test'' ''skipped'' \<in>
     set (snd (createRunTestsTask envAFails depsABC
          \<lparr>phases = ?phs, maxConcurrentTestGroups = 1\<rparr>))"
    by (rule i1 [rule_format, OF tg tt])
  have c2: "snd (createRunTestsTask envAFails depsABC
          \<lparr>phases = ?phs, maxConcurrentTestGroups = 1\<rparr>) =
     [DispatcherRun 0 [\<lparr>tests = [''A test'']\<rparr>], DispatcherStop 0,
      AppendTestResult ''B test'' ''skipped'', AppendTestResult ''C test'' ''skipped'']"
    unfolding planned_ABC task_AFails by simp
  have "project entryB = 1" by (simp add: entryB_def)
  with i4 have c3: "1 \<notin> fst (createRunTestsTask envAFails depsABC
          \<lparr>phases = ?phs, maxConcurrentTestGroups = 1\<rparr>)"
    by simp
  from h1 h2 h3 c1 c2 c3 show ?thesis by (intro conjI)
qed

text \<open>
  C4. In \<open>createRunTestsTask\<close>, once the dispatcher of a phase reports
  \<open>hasWorkerErrors()\<close> true, \<open>dispatcher.run\<close> is invoked for no later phase: the events
  of the task after that phase contain no call of \<open>dispatcher.run\<close>. This holds for every
  sequence of phases that \<open>createTestGroupsTask\<close> builds (every project configuration
  and grouping) and every pattern of worker errors and test outcomes.
\<close>

theorem worker_errors_stop_dispatch:
  "\<forall>k < length (plannedPhases ctg deps ss).
     hasWorkerErrors env (snd (runPrefix env deps (plannedPhases ctg deps ss) (Suc k)))
        (dispatcher (plannedPhases ctg deps ss ! k)) \<longrightarrow>
     (\<exists>evs. snd (createRunTestsTask env deps
                   \<lparr>phases = plannedPhases ctg deps ss, maxConcurrentTestGroups = n\<rparr>) =
             snd (runPrefix env deps (plannedPhases ctg deps ss) (Suc k)) @ evs \<and>
            (\<forall>d gs. DispatcherRun d gs \<notin> set evs))"
proof (intro allI impI)
  let ?phs = "plannedPhases ctg deps ss"
  let ?As = "map phaseProjects ?phs"
  fix k assume k: "k < length ?phs"
  obtain S log where stk: "runPrefix env deps ?phs k = (S, log)" by (cases "runPrefix env deps ?phs k")
  let ?st = "runPrefix env deps ?phs (Suc k)"
  assume "hasWorkerErrors env (snd ?st) (dispatcher (?phs ! k))"
  then have we: "hasWorkerErrors env (log @ phaseLog deps S (?phs ! k)) (dispatcher (?phs ! k))"
    by (simp add: runPrefix_Suc [OF k] stk runPhase_snd)
  have fst_eq: "fst ?st = S"
    using we by (simp add: runPrefix_Suc [OF k] stk runPhase_fst)
  let ?P0 = "\<Union> (set (take k ?As))"
  have SP0: "S \<subseteq> ?P0" using runPrefix_sub [of env deps ?phs k] stk by simp
  have "layered deps {} (take k ?As @ drop k ?As)" using plannedPhases_layered [of deps ctg ss] by simp
  from layered_split [OF this] have "layered deps ?P0 (drop k ?As)" by simp
  moreover from k have "drop k ?As = ?As ! k # drop (Suc k) ?As"
    using Cons_nth_drop_Suc [of k ?As] by simp
  ultimately have fresh: "\<forall>p \<in> ?As ! k. p \<notin> ?P0"
    and lay: "layered deps (?P0 \<union> ?As ! k) (drop (Suc k) ?As)" by simp_all
  from k have kb: "k < length (buildPhases deps ss)" by (simp add: plannedPhases_length)
  have ch: "chained deps (?As ! k) (drop (Suc k) ?As)"
    using buildPhases_chained_nth [OF kb] by (simp only: plannedPhases_sets)
  have maps: "drop (Suc k) ?As = map phaseProjects (drop (Suc k) ?phs)" by (simp add: drop_map)
  have dead: "fst (foldl (runPhase env deps) ?st (drop (Suc k) ?phs)) = fst ?st \<and>
     (\<exists>evs. snd (foldl (runPhase env deps) ?st (drop (Suc k) ?phs)) = snd ?st @ evs \<and>
          (\<forall>d gs. DispatcherRun d gs \<notin> set evs))"
  proof (rule run_dead)
    show "chained deps (?As ! k) (map phaseProjects (drop (Suc k) ?phs))"
      using ch by (simp only: maps)
    show "layered deps (?P0 \<union> ?As ! k) (map phaseProjects (drop (Suc k) ?phs))"
      using lay by (simp only: maps)
    show "?As ! k \<subseteq> ?P0 \<union> ?As ! k" by simp
    show "fst ?st \<subseteq> ?P0 \<union> ?As ! k" using fst_eq SP0 by auto
    show "?As ! k \<inter> fst ?st = {}" using fst_eq SP0 fresh by auto
  qed
  have "createRunTestsTask env deps \<lparr>phases = ?phs, maxConcurrentTestGroups = n\<rparr> =
      foldl (runPhase env deps) ?st (drop (Suc k) ?phs)"
    using run_from_prefix [of env deps ?phs "Suc k"] by (simp add: createRunTestsTask_def)
  with dead show "\<exists>evs. snd (createRunTestsTask env deps
                   \<lparr>phases = ?phs, maxConcurrentTestGroups = n\<rparr>) = snd ?st @ evs \<and>
            (\<forall>d gs. DispatcherRun d gs \<notin> set evs)"
    by simp
qed

text \<open>
  C4 at the configuration \<open>A\<close>, \<open>B \<rightarrow> A\<close>, \<open>C \<rightarrow> A\<close> where the dispatcher of the first
  phase reports worker errors.
\<close>

theorem worker_errors_stop_dispatch_witness:
  "0 < length (plannedPhases oneGroupPerSuite depsABC suitesABC) \<and>
   hasWorkerErrors envCrash
     (snd (runPrefix envCrash depsABC (plannedPhases oneGroupPerSuite depsABC suitesABC) (Suc 0)))
     (dispatcher (plannedPhases oneGroupPerSuite depsABC suitesABC ! 0)) \<and>
   (\<exists>evs. snd (createRunTestsTask envCrash depsABC
               \<lparr>phases = plannedPhases oneGroupPerSuite depsABC suitesABC,
                 maxConcurrentTestGroups = 1\<rparr>) =
           snd (runPrefix envCrash depsABC (plannedPhases oneGroupPerSuite depsABC suitesABC) (Suc 0)) @ evs \<and>
           (\<forall>d gs. DispatcherRun d gs \<notin> set evs))"
proof -
  let ?phs = "plannedPhases oneGroupPerSuite depsABC suitesABC"
  have h1: "0 < length ?phs" by (simp add: planned_ABC)
  have h2: "hasWorkerErrors envCrash (snd (runPrefix envCrash depsABC ?phs (Suc 0))) (dispatcher (?phs ! 0))"
    by (simp add: planned_ABC envCrash_def)
  from worker_errors_stop_dispatch [where ctg = oneGroupPerSuite and deps = depsABC
      and ss = suitesABC and env = envCrash and n = 1, rule_format, OF h1 h2] h1 h2
  show ?thesis by blast
qed

section \<open>The load-tests task: claims\<close>

text \<open>
  C6. When \<open>loadAllTests\<close> returns a root suite, the load-tests task fails with the error
  \<open>No tests found\<close> exactly when the root suite has zero tests, \<open>passWithNoTests\<close> is not
  set (it is \<open>undefined\<close> or \<open>false\<close>) and the run is not sharded; in every other case,
  that is when at least one test is loaded or the configuration tolerates emptiness, the
  task does not fail. When \<open>loadAllTests\<close> itself rejects, the failure is that rejection.
\<close>

theorem no_tests_found_iff:
  "fst (createLoadTask allTestsOf (Inr suite) ctx) =
     (if allTestsOf suite = [] \<and> passWithNoTests ctx \<noteq> Some True \<and> shard ctx = None
      then Some (ErrorMessage ''No tests found'') else None) \<and>
   fst (createLoadTask allTestsOf (Inl x) ctx) = Some (LoadAllTestsRejected x)"
  by (simp add: createLoadTask_def Let_def)

text \<open>
  C6 for an empty root suite (the test \<open>should print "no tests found" error\<close>), and for
  the same suite with \<open>passWithNoTests\<close>, with a shard, and with one test.
\<close>

theorem no_tests_found_iff_witness:
  "fst (createLoadTask testsOfList (loadedSuite []) (loadContext None None)) =
     Some (ErrorMessage ''No tests found'') \<and>
   fst (createLoadTask testsOfList (loadedSuite []) (loadContext (Some False) None)) =
     Some (ErrorMessage ''No tests found'') \<and>
   fst (createLoadTask testsOfList (loadedSuite []) (loadContext (Some True) None)) = None \<and>
   fst (createLoadTask testsOfList (loadedSuite []) (loadContext None (Some (1, 2)))) = None \<and>
   fst (createLoadTask testsOfList (loadedSuite [''a test'']) (loadContext None None)) = None"
proof -
  note a = no_tests_found_iff [where allTestsOf = testsOfList and suite = "[]"
      and ctx = "loadContext None None", THEN conjunct1]
  note a' = no_tests_found_iff [where allTestsOf = testsOfList and suite = "[]"
      and ctx = "loadContext (Some False) None", THEN conjunct1]
  note b = no_tests_found_iff [where allTestsOf = testsOfList and suite = "[]"
      and ctx = "loadContext (Some True) None", THEN conjunct1]
  note c = no_tests_found_iff [where allTestsOf = testsOfList and suite = "[]"
      and ctx = "loadContext None (Some (1, 2))", THEN conjunct1]
  note d = no_tests_found_iff [where allTestsOf = testsOfList and suite = "[''a test'']"
      and ctx = "loadContext None None", THEN conjunct1]
  from a a' b c d show ?thesis
    by (simp add: loadedSuite_def loadContext_def testsOfList_def)
qed

section \<open>The test loader: claims\<close>



text \<open>
  C9. \<open>loadTestFile\<close> is idempotent per file path through the global cache: for a cached
  file it returns the cached suite object and changes nothing (the file is not executed);
  so a second call after a first one that did not throw returns the identical suite object,
  in either environment, with the state (the executed files included) and the load errors
  untouched. A file whose execution threw is not cached, and a second call executes it
  again.
\<close>

theorem loadTestFile_cache_idempotent:
  "(cachedFileSuites st fileName = Some suite \<longrightarrow>
      loadTestFile imps rootDir fileName environment (st, errs) = (Inr suite, st, errs)) \<and>
   (fst (loadTestFile imps rootDir fileName environment (st, errs)) = Inr suite \<and>
    importThrows imps st fileName = None \<longrightarrow>
      loadTestFile imps rootDir fileName environment' (afterLoad imps rootDir fileName environment (st, errs)) =
        (Inr suite, afterLoad imps rootDir fileName environment (st, errs))) \<and>
   (importThrows imps st fileName \<noteq> None \<longrightarrow>
      cachedFileSuites (fst (afterLoad imps rootDir fileName environment (st, errs))) fileName = None \<and>
      required (fst (afterLoad imps rootDir fileName environment'
                 (afterLoad imps rootDir fileName environment (st, errs)))) = required st @ [fileName, fileName])"
proof (intro conjI impI)
  assume "cachedFileSuites st fileName = Some suite"
  then show "loadTestFile imps rootDir fileName environment (st, errs) = (Inr suite, st, errs)"
    by (rule loadTestFile_cached)
next
  assume a: "fst (loadTestFile imps rootDir fileName environment (st, errs)) = Inr suite \<and>
    importThrows imps st fileName = None"
  show "loadTestFile imps rootDir fileName environment' (afterLoad imps rootDir fileName environment (st, errs)) =
        (Inr suite, afterLoad imps rootDir fileName environment (st, errs))"
  proof (cases "cachedFileSuites st fileName")
    case (Some s)
    with a show ?thesis by (simp add: afterLoad_def loadTestFile_cached)
  next
    case None
    with a have n: "snd (requireOrImport imps (required st) fileName) = None"
      by (simp add: importThrows_def)
    from a have "suite = length (heap st)" by (simp add: loadTestFile_fresh_ok [OF None n])
    then show ?thesis
      by (simp add: afterLoad_def loadTestFile_fresh_ok [OF None n] loadTestFile_cached)
  qed
next
  assume "importThrows imps st fileName \<noteq> None"
  then obtain x where c: "cachedFileSuites st fileName = None"
    and t: "snd (requireOrImport imps (required st) fileName) = Some x"
    by (auto simp: importThrows_def split: option.splits)
  obtain st1 errs1 where s1: "afterLoad imps rootDir fileName environment (st, errs) = (st1, errs1)"
    by (cases "afterLoad imps rootDir fileName environment (st, errs)")
  from loadTestFile_throw_uncached [OF c t, of rootDir environment errs] s1
  have c1: "cachedFileSuites st1 fileName = None" by simp
  from loadTestFile_uncached_required [OF c, of imps rootDir environment errs] s1
  have r1: "required st1 = required st @ [fileName]" by simp
  from loadTestFile_uncached_required [OF c1, of imps rootDir environment' errs1] r1
  have "required (fst (afterLoad imps rootDir fileName environment' (st1, errs1))) = required st @ [fileName, fileName]"
    by simp
  with s1 have r2: "required (fst (afterLoad imps rootDir fileName environment'
                 (afterLoad imps rootDir fileName environment (st, errs)))) = required st @ [fileName, fileName]"
    by simp
  from c1 s1 show "cachedFileSuites (fst (afterLoad imps rootDir fileName environment (st, errs))) fileName = None"
    by simp
  from r2 show "required (fst (afterLoad imps rootDir fileName environment'
                 (afterLoad imps rootDir fileName environment (st, errs)))) = required st @ [fileName, fileName]" .
qed

text \<open>
  C9 for a file that loads (the second call returns the same suite object \<open>0\<close>) and
  for one that throws (it is executed twice by two calls).
\<close>

theorem loadTestFile_cache_idempotent_witness:
  "fst (loadTestFile importsBadFile ''tests'' ''a.spec.ts'' loader (emptyLoader, [])) = Inr 0 \<and>
   importThrows importsBadFile emptyLoader ''a.spec.ts'' = None \<and>
   loadTestFile importsBadFile ''tests'' ''a.spec.ts'' worker
       (afterLoad importsBadFile ''tests'' ''a.spec.ts'' loader (emptyLoader, [])) =
     (Inr 0, afterLoad importsBadFile ''tests'' ''a.spec.ts'' loader (emptyLoader, [])) \<and>
   importThrows importsBadFile emptyLoader ''bad.spec.ts'' \<noteq> None \<and>
   cachedFileSuites (fst (afterLoad importsBadFile ''tests'' ''bad.spec.ts'' loader (emptyLoader, [])))
       ''bad.spec.ts'' = None \<and>
   required (fst (afterLoad importsBadFile ''tests'' ''bad.spec.ts'' loader
       (afterLoad importsBadFile ''tests'' ''bad.spec.ts'' loader (emptyLoader, [])))) =
     [''bad.spec.ts'', ''bad.spec.ts'']"
proof -
  note good = loadTestFile_cache_idempotent [where imps = importsBadFile
      and rootDir = "''tests''" and fileName = "''a.spec.ts''" and st = emptyLoader and errs = "[]"
      and environment = loader and environment' = worker and suite = 0]
  note bad = loadTestFile_cache_idempotent [where imps = importsBadFile
      and rootDir = "''tests''" and fileName = "''bad.spec.ts''" and st = emptyLoader and errs = "[]"
      and environment = loader and environment' = loader]
  from good [THEN conjunct2, THEN conjunct1, rule_format, OF conjI [OF first_load_good importThrows_good]]
  have 1: "loadTestFile importsBadFile ''tests'' ''a.spec.ts'' worker
       (afterLoad importsBadFile ''tests'' ''a.spec.ts'' loader (emptyLoader, [])) =
     (Inr 0, afterLoad importsBadFile ''tests'' ''a.spec.ts'' loader (emptyLoader, []))" .
  have nb: "importThrows importsBadFile emptyLoader ''bad.spec.ts'' \<noteq> None"
    by (simp add: importThrows_bad)
  note third = bad [THEN conjunct2, THEN conjunct2, rule_format, OF nb]
  from third [THEN conjunct1]
  have 2: "cachedFileSuites (fst (afterLoad importsBadFile ''tests'' ''bad.spec.ts'' loader (emptyLoader, [])))
       ''bad.spec.ts'' = None" .
  from third [THEN conjunct2]
  have 3: "required (fst (afterLoad importsBadFile ''tests'' ''bad.spec.ts'' loader
       (afterLoad importsBadFile ''tests'' ''bad.spec.ts'' loader (emptyLoader, [])))) =
     required (emptyLoader :: nat LoaderState) @ [''bad.spec.ts'', ''bad.spec.ts'']" .
  from 3 have r3: "required (fst (afterLoad importsBadFile ''tests'' ''bad.spec.ts'' loader
       (afterLoad importsBadFile ''tests'' ''bad.spec.ts'' loader (emptyLoader, [])))) =
     [''bad.spec.ts'', ''bad.spec.ts'']"
    by (simp add: emptyLoader_def)
  from first_load_good importThrows_good 1 nb 2 r3 show ?thesis by (intro conjI)
qed

section \<open>Reporter multiplexer: claims\<close>

text \<open>
  C10. For the multiplexer's \<open>onTestBegin\<close>, \<open>onTestEnd\<close>, \<open>onStepBegin\<close>,
  \<open>onStdOut\<close>, \<open>onStdErr\<close> and \<open>onError\<close>, whatever the registered reporters throw:
  no exception escapes the method; every exception of a callback is printed; and the
  notification is delivered to every registered reporter, the ones after a throwing one
  included. Before \<open>onBegin\<close>, \<open>onStdOut\<close>, \<open>onStdErr\<close> and \<open>onError\<close> buffer the
  notification instead (no callback runs, no exception escapes).
\<close>

theorem reporter_exception_isolated:
  "deliversToAll st (OnTestBegin t res) (onTestBegin throws t res st) \<and>
   deliversToAll st (OnTestEnd t res) (onTestEnd throws t res st) \<and>
   deliversToAll st (OnStepBegin t res step) (onStepBegin throws t res step st) \<and>
   (case deferredStdIO st of
      None \<Rightarrow> deliversToAll st (OnStdOut chunk ot ores) (onStdOut throws chunk ot ores st)
    | Some buffered \<Rightarrow> onStdOut throws chunk ot ores st =
        (None, st\<lparr>deferredStdIO :=
           Some (buffered @ [\<lparr>ioType = stdout, ioChunk = chunk, ioTest = ot, ioResult = ores\<rparr>])\<rparr>)) \<and>
   (case deferredStdIO st of
      None \<Rightarrow> deliversToAll st (OnStdErr chunk ot ores) (onStdErr throws chunk ot ores st)
    | Some buffered \<Rightarrow> onStdErr throws chunk ot ores st =
        (None, st\<lparr>deferredStdIO :=
           Some (buffered @ [\<lparr>ioType = stderr, ioChunk = chunk, ioTest = ot, ioResult = ores\<rparr>])\<rparr>)) \<and>
   (case deferredErrors st of
      None \<Rightarrow> deliversToAll st (OnError error) (onError throws error st)
    | Some buffered \<Rightarrow> onError throws error st =
        (None, st\<lparr>deferredErrors := Some (buffered @ [error])\<rparr>))"
proof (intro conjI)
  show "deliversToAll st (OnTestBegin t res) (onTestBegin throws t res st)"
    unfolding onTestBegin_def by (rule broadcast_deliversToAll)
  show "deliversToAll st (OnTestEnd t res) (onTestEnd throws t res st)"
    unfolding onTestEnd_def by (rule broadcast_deliversToAll)
  show "deliversToAll st (OnStepBegin t res step) (onStepBegin throws t res step st)"
    unfolding onStepBegin_def by (rule broadcast_deliversToAll)
  show "case deferredStdIO st of
      None \<Rightarrow> deliversToAll st (OnStdOut chunk ot ores) (onStdOut throws chunk ot ores st)
    | Some buffered \<Rightarrow> onStdOut throws chunk ot ores st =
        (None, st\<lparr>deferredStdIO :=
           Some (buffered @ [\<lparr>ioType = stdout, ioChunk = chunk, ioTest = ot, ioResult = ores\<rparr>])\<rparr>)"
    by (cases "deferredStdIO st") (simp_all add: onStdOut_def broadcast_deliversToAll)
  show "case deferredStdIO st of
      None \<Rightarrow> deliversToAll st (OnStdErr chunk ot ores) (onStdErr throws chunk ot ores st)
    | Some buffered \<Rightarrow> onStdErr throws chunk ot ores st =
        (None, st\<lparr>deferredStdIO :=
           Some (buffered @ [\<lparr>ioType = stderr, ioChunk = chunk, ioTest = ot, ioResult = ores\<rparr>])\<rparr>)"
    by (cases "deferredStdIO st") (simp_all add: onStdErr_def broadcast_deliversToAll)
  show "case deferredErrors st of
      None \<Rightarrow> deliversToAll st (OnError error) (onError throws error st)
    | Some buffered \<Rightarrow> onError throws error st =
        (None, st\<lparr>deferredErrors := Some (buffered @ [error])\<rparr>)"
    by (cases "deferredErrors st") (simp_all add: onError_def broadcast_deliversToAll)
qed

text \<open>
  C10 with three reporters of which the second throws in every callback: the third one
  still receives the notification and nothing escapes.
\<close>

theorem reporter_exception_isolated_witness:
  "throwsSecond [Invoke 0 (OnTestBegin 7 8) False] 1 (OnTestBegin 7 8) \<and>
   fst (onTestBegin throwsSecond 7 8 (liveMultiplexer [0, 1, 2])) = None \<and>
   deliveredTo 2 (trace (snd (onTestBegin throwsSecond 7 8 (liveMultiplexer [0, 1, 2])))) =
     [OnTestBegin 7 8] \<and>
   fst (onError throwsSecond ''boom'' (liveMultiplexer [0, 1, 2])) = None \<and>
   deliveredTo 2 (trace (snd (onError throwsSecond ''boom'' (liveMultiplexer [0, 1, 2])))) =
     [OnError ''boom'']"
proof -
  let ?st = "liveMultiplexer [0, 1, 2] :: (nat, nat, nat, string) Multiplexer"
  note inst = reporter_exception_isolated [where st = ?st and throws = throwsSecond and t = 7
      and res = 8 and error = "''boom''"]
  have live: "deferredErrors ?st = None" "trace ?st = []" "reporters ?st = [0, 1, 2]"
    by (simp_all add: liveMultiplexer_def)
  from inst have "deliversToAll ?st (OnTestBegin 7 8) (onTestBegin throwsSecond 7 8 ?st)"
    by (rule conjunct1)
  then obtain evs where a: "onTestBegin throwsSecond 7 8 ?st = (None, ?st\<lparr>trace := trace ?st @ evs\<rparr>)"
    and b: "deliveredTo 2 evs = replicate (count_list (reporters ?st) 2) (OnTestBegin 7 8)"
    unfolding deliversToAll_def by blast
  have 1: "fst (onTestBegin throwsSecond 7 8 ?st) = None" using a by simp
  have 2: "deliveredTo 2 (trace (snd (onTestBegin throwsSecond 7 8 ?st))) = [OnTestBegin 7 8]"
    using a b live by simp
  from inst live have "deliversToAll ?st (OnError ''boom'') (onError throwsSecond ''boom'' ?st)"
    by simp
  then obtain evs' where a': "onError throwsSecond ''boom'' ?st = (None, ?st\<lparr>trace := trace ?st @ evs'\<rparr>)"
    and b': "deliveredTo 2 evs' = replicate (count_list (reporters ?st) 2) (OnError ''boom'')"
    unfolding deliversToAll_def by blast
  have 3: "fst (onError throwsSecond ''boom'' ?st) = None" using a' by simp
  have 4: "deliveredTo 2 (trace (snd (onError throwsSecond ''boom'' ?st))) = [OnError ''boom'']"
    using a' b' live by simp
  have 0: "throwsSecond [Invoke 0 (OnTestBegin 7 8) False] 1 (OnTestBegin 7 8)"
    by (simp add: throwsSecond_def)
  from 0 1 2 3 4 show ?thesis by blast
qed

text \<open>
  C5 as stated fails on its mechanism: after the task \<open>report begin\<close> and its rollback
  the registered reporter has received \<open>onBegin\<close> and no \<open>onEnd\<close> (the rollback calls
  the multiplexer's \<open>onEnd\<close>, which does nothing); \<open>onEnd\<close> reaches the reporter from
  \<open>onExit\<close>.
\<close>

theorem rollback_delivers_no_onEnd_counterexample:
  "deliveredTo 0 (trace (applyCalls neverThrows [ReportBegin 5, ReportBeginRollback]
      (newMultiplexer [0]))) = [OnBegin (GivenSuite 5)] \<and>
   deliveredTo 0 (trace (applyCalls neverThrows [ReportBegin 5, ReportBeginRollback, Exit ''passed'']
      (newMultiplexer [0]))) = [OnBegin (GivenSuite 5), OnEnd ''passed'', OnExit]"
  by (simp add: applyCalls_def reportBeginTask_def reportBeginRollback_def onEnd_def onBegin_def
      onExit_def newMultiplexer_def invoke_def wrap_def neverThrows_def)

text \<open>
  C5, amended. Take a run in which the multiplexer receives any notifications, then the
  task \<open>report begin\<close> (if the run reaches it) with further notifications and the task's
  rollback, then any notifications, then \<open>onExit\<close>; and let no reporter throw in
  \<open>onBegin\<close>. Then every reporter registered once receives \<open>onBegin\<close> exactly once
  (from the task, or emitted by \<open>onExit\<close> with an empty root suite when the task was
  never reached), then every \<open>onError\<close> of the run in order (those that arrived before
  \<open>onBegin\<close> were buffered and are delivered right after it), and then \<open>onEnd\<close>
  exactly once, delivered by \<open>onExit\<close>. This holds also when no test ran.
\<close>

theorem reporters_begin_end_once:
  assumes nb: "\<forall>tr x s. \<not> throws tr x (OnBegin s)"
    and pre: "list_all isNotification pre" and mid: "list_all isNotification mid"
    and post: "list_all isNotification post"
    and one: "count_list rs r = 1"
  shows "lifecycleTo r (trace (applyCalls throws (pipelineRun pre begun root mid post result)
            (newMultiplexer rs))) =
     OnBegin (if begun then GivenSuite root else EmptyRootSuite) #
     map OnError (errorsIn pre @ (if begun then errorsIn mid else []) @ errorsIn post) @
     [OnEnd result]"
proof -
  let ?st0 = "newMultiplexer rs :: ('a, 'b, 'c, 'd) Multiplexer"
  from nb have nb': "\<And>tr x s. \<not> throws tr x (OnBegin s)" by blast
  have b0: "buffering rs ?st0 []" and t0: "lifecycleTo r (trace ?st0) = []"
    by (simp_all add: buffering_def newMultiplexer_def lifecycleTo_def)
  let ?st1 = "applyCalls throws pre ?st0"
  from notifications_buffering [OF pre b0, of throws r] t0
  have b1: "buffering rs ?st1 (errorsIn pre)" and t1: "lifecycleTo r (trace ?st1) = []" by simp_all
  show ?thesis
  proof (cases begun)
    case True
    from onBegin_buffering [where throws = throws and suite = "GivenSuite root", OF nb' b1 one] t1 obtain st2 where
      s2: "onBegin throws (GivenSuite root) ?st1 = (None, st2)" and l2: "live rs st2"
      and t2: "lifecycleTo r (trace st2) = OnBegin (GivenSuite root) # map OnError (errorsIn pre)"
      by auto
    let ?st3 = "applyCalls throws mid st2"
    from notifications_live [OF mid l2 one, of throws] t2
    have l3: "live rs ?st3" and t3: "lifecycleTo r (trace ?st3) =
        OnBegin (GivenSuite root) # map OnError (errorsIn pre) @ map OnError (errorsIn mid)"
      by simp_all
    let ?st4 = "applyCalls throws post ?st3"
    from notifications_live [OF post l3 one, of throws] t3
    have l4: "live rs ?st4" and t4: "lifecycleTo r (trace ?st4) =
        OnBegin (GivenSuite root) # map OnError (errorsIn pre) @ map OnError (errorsIn mid)
          @ map OnError (errorsIn post)"
      by simp_all
    have run: "applyCalls throws (pipelineRun pre begun root mid post result) ?st0 =
        snd (onExit throws result ?st4)"
      using True s2
      by (simp add: pipelineRun_def applyCalls_append applyCalls_Cons applyCalls_Nil
          reportBeginTask_def reportBeginRollback_def onEnd_def)
    from onExit_live [OF l4 one, of throws result] t4 True show ?thesis
      unfolding run by simp
  next
    case False
    let ?st4 = "applyCalls throws post ?st1"
    from notifications_buffering [OF post b1, of throws r] t1
    have b4: "buffering rs ?st4 (errorsIn pre @ errorsIn post)" and t4: "lifecycleTo r (trace ?st4) = []"
      by simp_all
    have run: "applyCalls throws (pipelineRun pre begun root mid post result) ?st0 =
        snd (onExit throws result ?st4)"
      using False
      by (simp add: pipelineRun_def applyCalls_append applyCalls_Cons applyCalls_Nil)
    from onExit_buffering [where throws = throws and result = result, OF nb' b4 one] t4 False show ?thesis
      unfolding run by simp
  qed
qed

text \<open>
  C5, amended, for a load error reported before \<open>onBegin\<close> to two reporters, the second
  of which throws in \<open>onError\<close>: once with the task \<open>report begin\<close> never reached, once
  with it reached.
\<close>

theorem reporters_begin_end_once_witness:
  "(\<forall>tr x s. \<not> throwsOnError tr x (OnBegin s)) \<and>
   list_all isNotification earlyCalls \<and>
   count_list [0, 1] (0::nat) = 1 \<and> throwsOnError [] 1 (OnError ''load failed'') \<and>
   lifecycleTo 0 (trace (applyCalls throwsOnError
      (pipelineRun earlyCalls False 5 [] [] ''failed'') (newMultiplexer [0, 1]))) =
     [OnBegin EmptyRootSuite, OnError ''load failed'', OnEnd ''failed''] \<and>
   lifecycleTo 0 (trace (applyCalls throwsOnError
      (pipelineRun earlyCalls True 5 [] [] ''failed'') (newMultiplexer [0, 1]))) =
     [OnBegin (GivenSuite 5), OnError ''load failed'', OnEnd ''failed'']"
proof -
  have nb: "\<forall>tr x s. \<not> throwsOnError tr x (OnBegin s)" by (simp add: throwsOnError_def)
  have pre: "list_all isNotification earlyCalls" by (simp add: earlyCalls_def)
  have nil: "list_all isNotification ([] :: (nat, nat, string) MultiplexerCall list)" by simp
  have one: "count_list [0, 1] (0::nat) = 1" by simp
  have th: "throwsOnError [] 1 (OnError ''load failed'')" by (simp add: throwsOnError_def)
  have errs: "errorsIn earlyCalls = [''load failed'']" by (simp add: earlyCalls_def)
  note a = reporters_begin_end_once [where throws = throwsOnError and begun = False and root = 5
      and result = "''failed''", OF nb pre nil nil one]
  note b = reporters_begin_end_once [where throws = throwsOnError and begun = True and root = 5
      and result = "''failed''", OF nb pre nil nil one]
  from a errs have a': "lifecycleTo 0 (trace (applyCalls throwsOnError
      (pipelineRun earlyCalls False 5 [] [] ''failed'') (newMultiplexer [0, 1]))) =
     [OnBegin EmptyRootSuite, OnError ''load failed'', OnEnd ''failed'']" by simp
  from b errs have b': "lifecycleTo 0 (trace (applyCalls throwsOnError
      (pipelineRun earlyCalls True 5 [] [] ''failed'') (newMultiplexer [0, 1]))) =
     [OnBegin (GivenSuite 5), OnError ''load failed'', OnEnd ''failed'']" by simp
  show ?thesis
    using nb pre one th a' b' by (intro conjI)
qed

end
